theory Spec2Isabelle
  imports Complex_Main "HOL-Library.Word"
begin

section \<open>Text of the composer: strings of UTF-16 code units\<close>

text \<open>
  The text typed by the user is a JavaScript string, a sequence of 16-bit code units;
  \<open>split("")\<close> cuts it between code units, so the unit is what the model counts. The
  numbers of the program are JavaScript doubles. The tone analysis compares computed
  values with each other and with a threshold, so its arithmetic is modelled with the
  rounding of every operation (\<open>fl\<close> below); for the sizes and positions of the render pass
  the model reads the numbers as reals, and writes \<open>Math.floor\<close> and \<open>Math.round\<close> out.
\<close>

type_synonym jschar = "16 word"
type_synonym jsstring = "jschar list"

definition SP :: jschar where "SP = 32"
definition NL :: jschar where "NL = 10"
definition CR :: jschar where "CR = 13"

text \<open>\<open>text.replace(/\r/g, "")\<close>\<close>

definition stripCR :: "jsstring \<Rightarrow> jsstring" where
  "stripCR t = filter (\<lambda>c. c \<noteq> CR) t"

text \<open>
  \<open>s.split(sep)\<close> for a separator of one code unit: \<open>cur\<close> is the piece being read.
  The empty string splits into one empty piece.
\<close>

fun splitOn :: "jschar \<Rightarrow> jsstring \<Rightarrow> jsstring \<Rightarrow> jsstring list" where
  "splitOn sep cur [] = [cur]"
| "splitOn sep cur (c # cs) =
     (if c = sep then cur # splitOn sep [] cs else splitOn sep (cur @ [c]) cs)"

text \<open>
  The tokens of a paragraph: words when it holds a space, single code units otherwise;
  \<open>filter(Boolean)\<close> drops the empty pieces.
\<close>

definition hasSpace :: "jsstring \<Rightarrow> bool" where
  "hasSpace paragraph = (SP \<in> set paragraph)"

definition tokens :: "jsstring \<Rightarrow> jsstring list" where
  "tokens paragraph =
     (if hasSpace paragraph
      then filter (\<lambda>t. t \<noteq> []) (splitOn SP [] paragraph)
      else filter (\<lambda>t. t \<noteq> []) (map (\<lambda>c. [c]) paragraph))"

text \<open>
  One pass of the inner \<open>for\<close> loop of \<open>wrapText\<close>, on the token \<open>piece\<close>:
  \<open>mt\<close> is \<open>ctx.measureText(_).width\<close> under the current font, the state is the
  line being built and the lines pushed so far. The loop has no early exit, so it is
  the left fold of this step over the tokens.
\<close>

definition wrapStep ::
  "(jsstring \<Rightarrow> real) \<Rightarrow> real \<Rightarrow> bool \<Rightarrow> jsstring \<times> jsstring list \<Rightarrow> jsstring
     \<Rightarrow> jsstring \<times> jsstring list" where
  "wrapStep mt maxWidth sp st piece =
     (let line = fst st; lines = snd st;
          testLine = (if line \<noteq> [] then (if sp then line @ [SP] @ piece else line @ piece)
                      else piece)
      in if mt testLine > maxWidth \<and> line \<noteq> []
         then (piece, lines @ [line])
         else (testLine, lines))"

definition wrapTokens ::
  "(jsstring \<Rightarrow> real) \<Rightarrow> real \<Rightarrow> bool \<Rightarrow> jsstring list \<Rightarrow> jsstring \<Rightarrow> jsstring list
     \<Rightarrow> jsstring \<times> jsstring list" where
  "wrapTokens mt maxWidth sp toks line lines = foldl (wrapStep mt maxWidth sp) (line, lines) toks"

text \<open>The body of \<open>paragraphs.forEach\<close>, for the paragraph at index \<open>idx\<close> of \<open>n\<close>.\<close>

definition wrapParagraph ::
  "(jsstring \<Rightarrow> real) \<Rightarrow> real \<Rightarrow> nat \<Rightarrow> nat \<Rightarrow> jsstring \<Rightarrow> jsstring list \<Rightarrow> jsstring list" where
  "wrapParagraph mt maxWidth n idx paragraph lines =
     (let (line, lines1) = wrapTokens mt maxWidth (hasSpace paragraph) (tokens paragraph) [] lines;
          lines2 = (if line \<noteq> [] then lines1 @ [line] else lines1)
      in if int idx < int n - 1 then lines2 @ [[]] else lines2)"

fun wrapParagraphs ::
  "(jsstring \<Rightarrow> real) \<Rightarrow> real \<Rightarrow> nat \<Rightarrow> nat \<Rightarrow> jsstring list \<Rightarrow> jsstring list \<Rightarrow> jsstring list" where
  "wrapParagraphs mt maxWidth n idx [] lines = lines"
| "wrapParagraphs mt maxWidth n idx (p # ps) lines =
     wrapParagraphs mt maxWidth n (Suc idx) ps (wrapParagraph mt maxWidth n idx p lines)"

definition paragraphsOf :: "jsstring \<Rightarrow> jsstring list" where
  "paragraphsOf t = splitOn NL [] (stripCR t)"

definition wrapText :: "(jsstring \<Rightarrow> real) \<Rightarrow> jsstring \<Rightarrow> real \<Rightarrow> jsstring list" where
  "wrapText mt t maxWidth =
     (let paragraphs = paragraphsOf t
      in wrapParagraphs mt maxWidth (length paragraphs) 0 paragraphs [])"

text \<open>Every token of every paragraph of a text.\<close>

definition allTokens :: "jsstring \<Rightarrow> jsstring list" where
  "allTokens t = concat (map tokens (paragraphsOf t))"

text \<open>
  \<open>String.prototype.trim\<close>: the white space and line terminators of ECMAScript, as code
  units.
\<close>

definition isWhiteSpace :: "jschar \<Rightarrow> bool" where
  "isWhiteSpace c =
     (c \<in> {0x09, 0x0A, 0x0B, 0x0C, 0x0D, 0x20, 0xA0, 0x1680, 0x2028, 0x2029, 0x202F, 0x205F,
            0x3000, 0xFEFF} \<or> (0x2000 \<le> c \<and> c \<le> 0x200A))"

definition trim :: "jsstring \<Rightarrow> jsstring" where
  "trim t = rev (dropWhile isWhiteSpace (rev (dropWhile isWhiteSpace t)))"

section \<open>Colours and tone analysis\<close>

text \<open>The fields \<open>r\<close>, \<open>g\<close>, \<open>b\<close> of the source's \<open>RGB\<close>.\<close>

record RGB =
  rgb_r :: real
  rgb_g :: real
  rgb_b :: real

text \<open>\<open>FontStyle\<close>; the field \<open>size\<close> of the source is \<open>sizePx\<close> here.\<close>

record FontStyle =
  sizePx :: real
  lineHeight :: real
  paddingX :: real
  paddingY :: real
  fontWeight :: real
  fill :: string
  stroke :: string
  strokeWidth :: real
  shadowColor :: string
  shadowBlur :: real
  shadowOffsetY :: real
  fontFamily :: string

text \<open>\<open>Partial<FontStyle>\<close>: every field may be absent.\<close>

record PartialFontStyle =
  p_sizePx :: "real option"
  p_lineHeight :: "real option"
  p_paddingX :: "real option"
  p_paddingY :: "real option"
  p_fontWeight :: "real option"
  p_fill :: "string option"
  p_stroke :: "string option"
  p_strokeWidth :: "real option"
  p_shadowColor :: "string option"
  p_shadowBlur :: "real option"
  p_shadowOffsetY :: "real option"
  p_fontFamily :: "string option"

record ImageTone =
  average :: RGB
  accent :: RGB
  isDark :: bool

datatype PresetMode = Adaptive | Gold | Strike | Banner

text \<open>
  A decoded image: its dimensions and \<open>sampled\<close>, the RGBA bytes that \<open>getImageData\<close>
  returns after the image is drawn on the 64 by 64 analysis canvas, which is \<open>None\<close> when
  that canvas gives no 2d context.
\<close>

record image =
  width :: nat
  height :: nat
  sampled :: "8 word list option"

definition THAI_FONT_FALLBACK :: string where
  "THAI_FONT_FALLBACK =
     [CHR 0x22] @ ''Sarabun'' @ [CHR 0x22] @ '', '' @ [CHR 0x22] @ ''Noto Sans Thai'' @ [CHR 0x22] @
     '', '' @ [CHR 0x22] @ ''Kanit'' @ [CHR 0x22] @ '', '' @ [CHR 0x22] @ ''Sukhumvit Set'' @
     [CHR 0x22] @ '', '' @ [CHR 0x22] @ ''Prompt'' @ [CHR 0x22] @ '', '' @ [CHR 0x22] @ ''Maitree'' @
     [CHR 0x22] @ '', '' @ [CHR 0x22] @ ''Pridi'' @ [CHR 0x22] @ '', system-ui, -apple-system, '' @
     [CHR 0x22] @ ''Tahoma'' @ [CHR 0x22] @ '', '' @ [CHR 0x22] @ ''Arial'' @ [CHR 0x22] @
     '', sans-serif''"

definition FONT_CHOICES :: "string list" where
  "FONT_CHOICES =
     [''Sarabun'', ''Kanit'', ''Pridi'', ''Athiti'', ''Prompt'', ''Maitree'', ''Bai Jamjuree'',
      ''Anuphan'']"

text \<open>
  \<open>SARABUN_STACK\<close>; \<open>sarabunFamily\<close> stands for \<open>sarabun.style.fontFamily\<close>, which the font
  loader of the framework supplies.
\<close>

definition SARABUN_STACK :: "string \<Rightarrow> string" where
  "SARABUN_STACK sarabunFamily =
     (if sarabunFamily \<noteq> [] then sarabunFamily @ '', '' @ THAI_FONT_FALLBACK
      else [CHR 0x22] @ ''Sarabun'' @ [CHR 0x22] @ '', '' @ THAI_FONT_FALLBACK)"

definition clamp :: "real \<Rightarrow> real \<Rightarrow> real \<Rightarrow> real" where
  "clamp v lo hi = min hi (max lo v)"

text \<open>\<open>Math.round\<close>: to the nearest integer, a half going up.\<close>

definition js_round :: "real \<Rightarrow> int" where
  "js_round x = \<lfloor>x + 1 / 2\<rfloor>"

definition hexDigit :: "nat \<Rightarrow> char" where
  "hexDigit d = ''0123456789abcdef'' ! (d mod 16)"

text \<open>
  \<open>toHex\<close> of \<open>rgbToHex\<close>: the clamped value is an integer from 0 to 255, so
  \<open>toString(16).padStart(2, "0")\<close> is its two hexadecimal digits.
\<close>

definition toHex :: "real \<Rightarrow> string" where
  "toHex n = (let v = nat \<lfloor>clamp (of_int (js_round n)) 0 255\<rfloor>
              in [hexDigit (v div 16), hexDigit (v mod 16)])"

definition rgbToHex :: "RGB \<Rightarrow> string" where
  "rgbToHex c = ''#'' @ toHex (rgb_r c) @ toHex (rgb_g c) @ toHex (rgb_b c)"

definition adjustColor :: "RGB \<Rightarrow> real \<Rightarrow> RGB" where
  "adjustColor color delta =
     \<lparr>rgb_r = clamp (rgb_r color + delta) 0 255,
      rgb_g = clamp (rgb_g color + delta) 0 255,
      rgb_b = clamp (rgb_b color + delta) 0 255\<rparr>"

text \<open>
  The numbers of the tone analysis are IEEE 754 doubles: a literal is the double nearest
  to it, and \<open>+\<close>, \<open>-\<close>, \<open>*\<close>, \<open>/\<close> return the exact result rounded to 53 significant
  bits, to the nearest, a tie going to the even significand. \<open>fl\<close> is that rounding, on
  the reals: \<open>exponent x\<close> is the \<open>e\<close> with \<open>2 ^ e \<le> \<bar>x\<bar> < 2 ^ (e + 1)\<close>, found by halving or
  doubling at most 1100 times, and the result is the multiple of \<open>2 ^ (e - 52)\<close> nearest to
  \<open>x\<close>. The analysis handles bytes, their sums over 4096 pixels and quotients of such
  numbers, all of them far inside the range of the normal doubles, where the rounding
  is this one.
\<close>

definition pow2 :: "int \<Rightarrow> real" where
  "pow2 e = (if 0 \<le> e then 2 ^ nat e else 1 / 2 ^ nat (- e))"

primrec expoUp :: "nat \<Rightarrow> real \<Rightarrow> nat" where
  "expoUp 0 x = 0"
| "expoUp (Suc n) x = (if 2 \<le> x then Suc (expoUp n (x / 2)) else 0)"

primrec expoDown :: "nat \<Rightarrow> real \<Rightarrow> nat" where
  "expoDown 0 x = 0"
| "expoDown (Suc n) x = (if x < 1 then Suc (expoDown n (x * 2)) else 0)"

definition exponent :: "real \<Rightarrow> int" where
  "exponent x =
     (if 1 \<le> \<bar>x\<bar> then int (expoUp 1100 \<bar>x\<bar>) else - int (expoDown 1100 \<bar>x\<bar>))"

definition roundEven :: "real \<Rightarrow> int" where
  "roundEven q =
     (let f = \<lfloor>q\<rfloor>;
          d = q - of_int f
      in if d < 1 / 2 then f else if 1 / 2 < d then f + 1 else if even f then f else f + 1)"

definition fl :: "real \<Rightarrow> real" where
  "fl x = (if x = 0 then 0
           else (let u = pow2 (exponent x - 52) in of_int (roundEven (x / u)) * u))"

definition fadd :: "real \<Rightarrow> real \<Rightarrow> real" where
  "fadd a b = fl (a + b)"

definition fsub :: "real \<Rightarrow> real \<Rightarrow> real" where
  "fsub a b = fl (a - b)"

definition fmul :: "real \<Rightarrow> real \<Rightarrow> real" where
  "fmul a b = fl (a * b)"

definition fdiv :: "real \<Rightarrow> real \<Rightarrow> real" where
  "fdiv a b = fl (a / b)"

text \<open>\<open>0.299 * r + 0.587 * g + 0.114 * b\<close>, the operations in the order JavaScript makes them.\<close>

definition getLuminance :: "RGB \<Rightarrow> real" where
  "getLuminance c =
     fadd (fadd (fmul (fl 0.299) (rgb_r c)) (fmul (fl 0.587) (rgb_g c)))
          (fmul (fl 0.114) (rgb_b c))"

text \<open>The variables the sampling loop of \<open>analyzeImageColors\<close> updates.\<close>

record sampling =
  sumR :: real
  sumG :: real
  sumB :: real
  maxScore :: real
  best :: RGB

definition score :: "RGB \<Rightarrow> real" where
  "score c =
     (let mx = max (rgb_r c) (max (rgb_g c) (rgb_b c));
          mn = min (rgb_r c) (min (rgb_g c) (rgb_b c));
          saturation = (if mx = 0 then 0 else fdiv (fsub mx mn) mx);
          luminance = getLuminance c;
          contrastToMid = fdiv \<bar>fsub luminance 128\<bar> 128
      in fadd (fmul saturation (fl 0.6)) (fmul contrastToMid (fl 0.4)))"

definition pixel :: "8 word \<Rightarrow> 8 word \<Rightarrow> 8 word \<Rightarrow> RGB" where
  "pixel pr pg pb = \<lparr>rgb_r = real (unat pr), rgb_g = real (unat pg), rgb_b = real (unat pb)\<rparr>"

text \<open>The body of the loop, on the pixel \<open>c\<close>.\<close>

definition samplePixel :: "RGB \<Rightarrow> sampling \<Rightarrow> sampling" where
  "samplePixel c s =
     (let s1 = s\<lparr>sumR := fadd (sumR s) (rgb_r c), sumG := fadd (sumG s) (rgb_g c),
                  sumB := fadd (sumB s) (rgb_b c)\<rparr>
      in if score c > maxScore s1 then s1\<lparr>maxScore := score c, best := c\<rparr> else s1)"

text \<open>
  The pixels of the byte array in scan order: four bytes a pixel, the alpha byte unread.
  \<open>getImageData(0, 0, 64, 64)\<close> returns \<open>4 * 64 * 64\<close> bytes, so no group is ever cut
  short.
\<close>

fun pixelsOf :: "8 word list \<Rightarrow> RGB list" where
  "pixelsOf (pr # pg # pb # pa # rest) = pixel pr pg pb # pixelsOf rest"
| "pixelsOf _ = []"

definition sampleStart :: sampling where
  "sampleStart = \<lparr>sumR = 0, sumG = 0, sumB = 0, maxScore = - 1,
                  best = \<lparr>rgb_r = 255, rgb_g = 255, rgb_b = 255\<rparr>\<rparr>"

definition analyzeImageColors :: "image \<Rightarrow> ImageTone option" where
  "analyzeImageColors img =
     (case sampled img of
        None \<Rightarrow> None
      | Some data \<Rightarrow>
          (let s = foldl (\<lambda>s c. samplePixel c s) sampleStart (pixelsOf data);
               pixels = fdiv (real (length data)) 4;
               avg = \<lparr>rgb_r = fdiv (sumR s) pixels, rgb_g = fdiv (sumG s) pixels,
                      rgb_b = fdiv (sumB s) pixels\<rparr>
           in Some \<lparr>average = avg, accent = best s, isDark = (getLuminance avg < 115)\<rparr>))"

section \<open>Style derivation and the adaptive restyle\<close>

text \<open>\<open>buildFontStack(primary?)\<close>: an absent or empty \<open>primary\<close> gives the fallback alone.\<close>

definition buildFontStack :: "string option \<Rightarrow> string" where
  "buildFontStack primary =
     (case primary of
        None \<Rightarrow> THAI_FONT_FALLBACK
      | Some f \<Rightarrow> (if f \<noteq> [] then [CHR 0x22] @ f @ [CHR 0x22] @ '', '' @ THAI_FONT_FALLBACK
                   else THAI_FONT_FALLBACK))"

text \<open>
  The four values of \<open>Math.random()\<close> that one call of \<open>deriveFontStyleFromImage\<close> draws,
  in the order of the calls: for the size, the bottom padding, the font and the line
  height. Each lies in the interval from 0 to 1, 1 excluded.
\<close>

record draws =
  uSize :: real
  uPadding :: real
  uFont :: real
  uLineHeight :: real

definition pickRandomFontStack :: "real \<Rightarrow> string" where
  "pickRandomFontStack u =
     (let idx = \<lfloor>u * real (length FONT_CHOICES)\<rfloor>
      in buildFontStack (if 0 \<le> idx \<and> idx < int (length FONT_CHOICES)
                         then Some (FONT_CHOICES ! nat idx) else None))"

definition deriveFontStyleFromImage :: "image \<Rightarrow> draws \<Rightarrow> PartialFontStyle option" where
  "deriveFontStyleFromImage img u =
     (case analyzeImageColors img of
        None \<Rightarrow> None
      | Some tone \<Rightarrow>
          (let fillBase = (if isDark tone then adjustColor (average tone) 65
                           else adjustColor (average tone) (- 80));
               strokeBase = (if isDark tone then adjustColor (accent tone) (- 40)
                             else adjustColor (accent tone) 50);
               sz = of_int (js_round (50 + uSize u * 10));
               padY = 78 + of_int (js_round (uPadding u * 18))
           in Some \<lparr>p_sizePx = Some sz,
                    p_lineHeight = Some (1.18 + uLineHeight u * 0.07),
                    p_paddingX = None,
                    p_paddingY = Some padY,
                    p_fontWeight = None,
                    p_fill = Some (rgbToHex fillBase),
                    p_stroke = Some (rgbToHex strokeBase),
                    p_strokeWidth = Some (if isDark tone then 3.6 else 3.2),
                    p_shadowColor = Some (if isDark tone then ''rgba(0,0,0,0.55)''
                                          else ''rgba(0,0,0,0.38)''),
                    p_shadowBlur = None,
                    p_shadowOffsetY = None,
                    p_fontFamily = Some (pickRandomFontStack (uFont u))\<rparr>))"

text \<open>The object spread \<open>{...prev, ...adaptive}\<close>: a field present in \<open>adaptive\<close> wins.\<close>

definition orElse :: "'a option \<Rightarrow> 'a \<Rightarrow> 'a" where
  "orElse v d = (case v of None \<Rightarrow> d | Some x \<Rightarrow> x)"

definition spread :: "FontStyle \<Rightarrow> PartialFontStyle \<Rightarrow> FontStyle" where
  "spread prev adaptive =
     \<lparr>sizePx = orElse (p_sizePx adaptive) (sizePx prev),
      lineHeight = orElse (p_lineHeight adaptive) (lineHeight prev),
      paddingX = orElse (p_paddingX adaptive) (paddingX prev),
      paddingY = orElse (p_paddingY adaptive) (paddingY prev),
      fontWeight = orElse (p_fontWeight adaptive) (fontWeight prev),
      fill = orElse (p_fill adaptive) (fill prev),
      stroke = orElse (p_stroke adaptive) (stroke prev),
      strokeWidth = orElse (p_strokeWidth adaptive) (strokeWidth prev),
      shadowColor = orElse (p_shadowColor adaptive) (shadowColor prev),
      shadowBlur = orElse (p_shadowBlur adaptive) (shadowBlur prev),
      shadowOffsetY = orElse (p_shadowOffsetY adaptive) (shadowOffsetY prev),
      fontFamily = orElse (p_fontFamily adaptive) (fontFamily prev)\<rparr>"

text \<open>
  The updater given to \<open>setFontStyle\<close> in \<open>adaptStyle\<close>:
  \<open>{...prev, ...adaptive, fontFamily: prev.fontFamily, fontWeight: prev.fontWeight}\<close>.
\<close>

definition mergeAdaptive :: "FontStyle \<Rightarrow> PartialFontStyle \<Rightarrow> FontStyle" where
  "mergeAdaptive prev adaptive =
     (spread prev adaptive)\<lparr>fontFamily := fontFamily prev, fontWeight := fontWeight prev\<rparr>"

text \<open>
  \<open>loadImageSafe\<close> and \<open>loadLogoSafe\<close>: \<open>decode\<close> tells, for a source, whether the browser
  loads it (\<open>onload\<close>, the image) or fails (\<open>onerror\<close>, \<open>None\<close>); the promise resolves in
  both cases and never rejects.
\<close>

definition loadImageSafe :: "(string \<Rightarrow> image option) \<Rightarrow> string \<Rightarrow> image option" where
  "loadImageSafe decode src = (case decode src of Some img \<Rightarrow> Some img | None \<Rightarrow> None)"

definition loadLogoSafe :: "(string \<Rightarrow> image option) \<Rightarrow> string \<Rightarrow> image option" where
  "loadLogoSafe decode src = (case decode src of Some img \<Rightarrow> Some img | None \<Rightarrow> None)"

text \<open>
  \<open>adaptStyle\<close>, the effect that runs when \<open>imageUrl\<close> or \<open>preset\<close> changes: the font
  style after it, from the style before. \<open>cancelled\<close> is the flag of the effect when
  the image has loaded.
\<close>

definition adaptStyle ::
  "(string \<Rightarrow> image option) \<Rightarrow> string \<Rightarrow> PresetMode \<Rightarrow> bool \<Rightarrow> draws \<Rightarrow> FontStyle \<Rightarrow> FontStyle" where
  "adaptStyle decode imageUrl preset cancelled u prev =
     (if imageUrl = [] \<or> preset \<noteq> Adaptive then prev
      else case loadImageSafe decode imageUrl of
             None \<Rightarrow> prev
           | Some img \<Rightarrow>
               (if cancelled then prev
                else case deriveFontStyleFromImage img u of
                       None \<Rightarrow> prev
                     | Some adaptive \<Rightarrow> mergeAdaptive prev adaptive))"

text \<open>The initial value of the \<open>fontStyle\<close> state.\<close>

definition initialFontStyle :: "string \<Rightarrow> FontStyle" where
  "initialFontStyle sarabunFamily =
     \<lparr>sizePx = 54, lineHeight = 1.22, paddingX = 80, paddingY = 90, fontWeight = 700,
      fill = ''#F5F7FF'', stroke = ''#7A0D1B'', strokeWidth = 3,
      shadowColor = ''rgba(0,0,0,0.55)'', shadowBlur = 14, shadowOffsetY = 6,
      fontFamily = SARABUN_STACK sarabunFamily\<rparr>"

section \<open>The render pass\<close>

text \<open>
  \<open>draw\<close> acts on the 2d context of the canvas. The model returns the calls and property
  writes it makes, in order. A gradient made by \<open>createLinearGradient\<close> with its
  \<open>addColorStop\<close> calls is one value: the two end points and the stops.
\<close>

datatype paint =
    Color string
  | LinearGradient real real real real "(real \<times> string) list"

text \<open>The value written to \<open>ctx.font\<close>: weight, size in px and family.\<close>

record font =
  fWeight :: real
  fSizePx :: real
  fFamily :: string

datatype cmd =
    SetCanvasSize real real
  | DrawImageCropped image int int int int real real real real
  | SetFillStyle paint
  | FillRect real real real real
  | Save
  | Restore
  | SetGlobalAlpha real
  | SetFilterBlur real
  | DrawImageScaled image real real real real
  | SetTextAlign string
  | SetTextBaseline string
  | SetFont font
  | SetShadowColor string
  | SetShadowBlur real
  | SetShadowOffsetX real
  | SetShadowOffsetY real
  | SetLineWidth real
  | SetStrokeStyle paint
  | StrokeText jsstring real real
  | FillText jsstring real real

definition W :: real where "W = 960"
definition H :: real where "H = 1200"

text \<open>The fields \<open>size\<close>, \<open>opacity\<close>, \<open>blur\<close>, \<open>padding\<close> of the \<open>logoSettings\<close> state.\<close>

record LogoSettings =
  logoSize :: real
  logoOpacity :: real
  logoBlur :: real
  logoPadding :: real

text \<open>The state of the component that \<open>draw\<close> reads; \<open>textValue\<close> is the state \<open>text\<close>.\<close>

record composer =
  imageUrl :: string
  preset :: PresetMode
  logoUrl :: string
  logoSettings :: LogoSettings
  textValue :: jsstring
  fontStyle :: FontStyle

text \<open>
  What the browser answers: whether the canvas and its 2d context exist, the outcome of
  loading each source, and the width \<open>measureText\<close> gives a string under each font.
\<close>

record browser =
  canvasReady :: bool
  decode :: "string \<Rightarrow> image option"
  measureText :: "font \<Rightarrow> jsstring \<Rightarrow> real"

text \<open>
  The source rectangle \<open>(sx, sy, sw, sh)\<close> of the cover fit, for an image of width \<open>w\<close>
  and height \<open>h\<close>. \<open>wider\<close> is the test \<open>imgAR > canvasAR\<close>: the quotient
  \<open>img.width / img.height\<close> is infinite when only the height is 0, and the test holds; it
  is not a number when both are 0, and the test fails.
\<close>

definition coverCrop :: "nat \<Rightarrow> nat \<Rightarrow> int \<times> int \<times> int \<times> int" where
  "coverCrop w h =
     (let canvasAR = W / H;
          wider = (if h = 0 then 0 < w else real w / real h > canvasAR)
      in if wider
         then (let sh = int h;
                   sw = \<lfloor>of_int sh * canvasAR\<rfloor>;
                   sx = \<lfloor>(real w - of_int sw) / 2\<rfloor>
               in (sx, 0, sw, sh))
         else (let sw = int w;
                   sh = \<lfloor>of_int sw / canvasAR\<rfloor>;
                   sy = \<lfloor>(real h - of_int sh) / 2\<rfloor>
               in (0, sy, sw, sh)))"

definition drawFallbackBackground :: "cmd list" where
  "drawFallbackBackground =
     [SetFillStyle (LinearGradient 0 0 0 H [(0, ''#0c1224''), (1, ''#05070f'')]),
      FillRect 0 0 W H]"

definition drawBottomPlate :: "cmd list" where
  "drawBottomPlate =
     (let bandH = 320
      in [SetFillStyle (LinearGradient 0 (H - bandH) 0 H
            [(0, ''rgba(0,0,0,0.00)''), (0.35, ''rgba(0,0,0,0.25)''), (1, ''rgba(0,0,0,0.78)'')]),
          FillRect 0 (H - bandH) W bandH])"

text \<open>Step 1 of \<open>draw\<close>: the background image, cover fitted, or the fallback.\<close>

definition backgroundImage :: "browser \<Rightarrow> composer \<Rightarrow> image option" where
  "backgroundImage env st =
     (if imageUrl st \<noteq> [] then loadImageSafe (decode env) (imageUrl st) else None)"

definition backgroundLayer :: "browser \<Rightarrow> composer \<Rightarrow> cmd list" where
  "backgroundLayer env st =
     (case backgroundImage env st of
        Some img \<Rightarrow>
          (let (sx, sy, sw, sh) = coverCrop (width img) (height img)
           in [DrawImageCropped img sx sy sw sh 0 0 W H])
      | None \<Rightarrow> drawFallbackBackground)"

text \<open>
  Step 2.5: the logo. \<open>logoImg.width / logoImg.height || 1\<close> is 1 when the quotient is 0
  or not a number, and infinite when only the height is 0, which makes \<open>targetH\<close> 0.
\<close>

definition logoTargetH :: "real \<Rightarrow> nat \<Rightarrow> nat \<Rightarrow> real" where
  "logoTargetH targetW w h =
     (if h = 0 then (if w = 0 then targetW else 0)
      else if w = 0 then targetW
      else targetW / (real w / real h))"

definition logoLayer :: "browser \<Rightarrow> composer \<Rightarrow> cmd list" where
  "logoLayer env st =
     (if logoUrl st \<noteq> []
      then (case loadLogoSafe (decode env) (logoUrl st) of
              Some logoImg \<Rightarrow>
                (let targetW = logoSize (logoSettings st);
                     targetH = logoTargetH targetW (width logoImg) (height logoImg);
                     x = W - targetW - logoPadding (logoSettings st);
                     y = logoPadding (logoSettings st)
                 in [Save,
                     SetGlobalAlpha (logoOpacity (logoSettings st)),
                     SetFilterBlur (logoBlur (logoSettings st)),
                     DrawImageScaled logoImg x y targetW targetH,
                     Restore])
            | None \<Rightarrow> [])
      else [])"

definition fontOf :: "FontStyle \<Rightarrow> real \<Rightarrow> font" where
  "fontOf fs drawFontSize =
     \<lparr>fWeight = fontWeight fs, fSizePx = drawFontSize, fFamily = fontFamily fs\<rparr>"

text \<open>
  The font-size fitting loop of \<open>draw\<close>, from the values of \<open>drawFontSize\<close> and \<open>lines\<close>
  before a test of the loop condition. It returns their values after the loop and, as
  \<open>tried\<close>, the sizes of the passes made, one for each run of the body.
\<close>

function fitLoop ::
  "(font \<Rightarrow> jsstring \<Rightarrow> real) \<Rightarrow> FontStyle \<Rightarrow> jsstring \<Rightarrow> real \<Rightarrow> real \<Rightarrow> jsstring list \<Rightarrow> real list
     \<Rightarrow> real \<times> jsstring list \<times> real list" where
  "fitLoop mt fs safeText maxTextWidth drawFontSize lines tried =
     (if drawFontSize \<ge> 34
      then (let candidate = wrapText (mt (fontOf fs drawFontSize)) safeText maxTextWidth;
                longest = foldl (\<lambda>acc row. max acc (mt (fontOf fs drawFontSize) row)) 0 candidate
            in if longest \<le> maxTextWidth
               then (drawFontSize, candidate, tried @ [drawFontSize])
               else fitLoop mt fs safeText maxTextWidth (drawFontSize - 2) candidate
                      (tried @ [drawFontSize]))
      else (drawFontSize, lines, tried))"
  by pat_completeness auto
termination
proof (relation "measure (\<lambda>(mt, fs, safeText, maxTextWidth, drawFontSize, lines, tried).
                   nat \<lceil>drawFontSize - 32\<rceil>)")
  show "wf (measure (\<lambda>(mt :: font \<Rightarrow> jsstring \<Rightarrow> real, fs :: FontStyle, safeText :: jsstring,
                       maxTextWidth :: real, drawFontSize :: real, lines :: jsstring list,
                       tried :: real list). nat \<lceil>drawFontSize - 32\<rceil>))"
    by simp
next
  fix mt :: "font \<Rightarrow> jsstring \<Rightarrow> real" and fs :: FontStyle and safeText :: jsstring
    and maxTextWidth drawFontSize :: real and lines :: "jsstring list" and tried :: "real list"
    and x xa
  assume a: "34 \<le> drawFontSize"
  have "\<lceil>drawFontSize - 2 - 32\<rceil> = \<lceil>drawFontSize - 32\<rceil> - 2"
    by (metis ceiling_diff_numeral diff_diff_eq2 diff_add_cancel add_diff_cancel diff_diff_add add.commute)
  moreover have "\<lceil>drawFontSize - 32\<rceil> \<ge> 2" using a by (simp add: le_ceiling_iff)
  ultimately show "((mt, fs, safeText, maxTextWidth, drawFontSize - 2, x, tried @ [drawFontSize]),
                    (mt, fs, safeText, maxTextWidth, drawFontSize, lines, tried))
                   \<in> measure (\<lambda>(mt, fs, safeText, maxTextWidth, drawFontSize, lines, tried).
                        nat \<lceil>drawFontSize - 32\<rceil>)"
    by simp
qed

declare fitLoop.simps [simp del]

definition maxTextWidth :: "FontStyle \<Rightarrow> real" where
  "maxTextWidth fs = W - paddingX fs * 2"

text \<open>The loop as \<open>draw\<close> starts it: at the configured size, with no line yet.\<close>

definition fitText :: "browser \<Rightarrow> composer \<Rightarrow> real \<times> jsstring list \<times> real list" where
  "fitText env st =
     fitLoop (measureText env) (fontStyle st) (trim (textValue st)) (maxTextWidth (fontStyle st))
       (sizePx (fontStyle st)) [] []"

definition totalTextHeight :: "FontStyle \<Rightarrow> jsstring list \<Rightarrow> real \<Rightarrow> real" where
  "totalTextHeight fs lines drawFontSize = real (length lines) * drawFontSize * lineHeight fs"

definition startY :: "FontStyle \<Rightarrow> real \<Rightarrow> real" where
  "startY fs totalH = H - paddingY fs - totalH / 2"

text \<open>The \<open>y\<close> of the line at index \<open>idx\<close>, in both \<open>lines.forEach\<close> passes.\<close>

definition lineY :: "FontStyle \<Rightarrow> real \<Rightarrow> real \<Rightarrow> nat \<Rightarrow> real" where
  "lineY fs y0 drawFontSize idx = y0 + real idx * drawFontSize * lineHeight fs"

definition strokeLines :: "FontStyle \<Rightarrow> real \<Rightarrow> real \<Rightarrow> jsstring list \<Rightarrow> cmd list" where
  "strokeLines fs y0 drawFontSize lines =
     map (\<lambda>(idx, row). StrokeText row (W / 2) (lineY fs y0 drawFontSize idx)) (enumerate 0 lines)"

definition fillLines :: "FontStyle \<Rightarrow> real \<Rightarrow> real \<Rightarrow> jsstring list \<Rightarrow> cmd list" where
  "fillLines fs y0 drawFontSize lines =
     map (\<lambda>(idx, row). FillText row (W / 2) (lineY fs y0 drawFontSize idx)) (enumerate 0 lines)"

text \<open>The recipe of the active preset.\<close>

definition presetShadowColor :: "PresetMode \<Rightarrow> FontStyle \<Rightarrow> string" where
  "presetShadowColor p fs =
     (if p = Gold then ''rgba(0,0,0,0.48)''
      else if p = Strike then ''rgba(0,0,0,0.8)''
      else if p = Banner then ''rgba(0,0,0,0.75)''
      else shadowColor fs)"

definition presetStrokeWidth :: "PresetMode \<Rightarrow> FontStyle \<Rightarrow> real \<Rightarrow> real" where
  "presetStrokeWidth p fs drawFontSize =
     (if p = Gold then max (drawFontSize * 0.08) 4.8
      else if p = Strike then max (drawFontSize * 0.06) 4.5
      else if p = Banner then max (drawFontSize * 0.05) 4.2
      else strokeWidth fs)"

definition presetStrokeColor :: "PresetMode \<Rightarrow> FontStyle \<Rightarrow> string" where
  "presetStrokeColor p fs =
     (if p = Gold then ''#3b2500''
      else if p = Strike then ''#0c0f1a''
      else if p = Banner then ''#0a0a0a''
      else stroke fs)"

definition presetShadowBlur :: "PresetMode \<Rightarrow> FontStyle \<Rightarrow> real" where
  "presetShadowBlur p fs =
     (if p = Gold then 18 else if p = Strike then 22 else if p = Banner then 20
      else shadowBlur fs)"

definition presetShadowOffsetY :: "PresetMode \<Rightarrow> FontStyle \<Rightarrow> real" where
  "presetShadowOffsetY p fs =
     (if p = Gold then 8 else if p = Strike then 10 else if p = Banner then 12
      else shadowOffsetY fs)"

definition presetFill :: "PresetMode \<Rightarrow> FontStyle \<Rightarrow> real \<Rightarrow> real \<Rightarrow> real \<Rightarrow> paint" where
  "presetFill p fs y0 totalH drawFontSize =
     (if p = Gold
      then LinearGradient (W / 2) (y0 - drawFontSize) (W / 2) (y0 + totalH + drawFontSize)
             [(0, ''#f4e4b2''), (0.45, ''#f6d57a''), (0.55, ''#d6a73a''), (1, ''#9a6b1b'')]
      else if p = Strike
      then LinearGradient 0 (y0 - drawFontSize) 0 (y0 + totalH + drawFontSize)
             [(0, ''#f7f8fc''), (0.35, ''#e6e8f1''), (0.65, ''#d32f2f''), (1, ''#8c0f0f'')]
      else if p = Banner
      then LinearGradient 0 0 W 0
             [(0, ''#ffffff''), (0.45, ''#ffffff''), (0.55, ''#f2c23a''), (1, ''#f2c23a'')]
      else Color (fill fs))"

text \<open>
  Step 3 of \<open>draw\<close>: nothing when the trimmed text is empty; otherwise the fitting loop,
  whose passes each write \<open>ctx.font\<close>, then the stroke pass and the fill pass.
\<close>

definition textLayer :: "browser \<Rightarrow> composer \<Rightarrow> cmd list" where
  "textLayer env st =
     (if trim (textValue st) = [] then []
      else (let fs = fontStyle st;
                (drawFontSize, lines, tried) = fitText env st;
                totalH = totalTextHeight fs lines drawFontSize;
                y0 = startY fs totalH
            in [SetTextAlign ''center'', SetTextBaseline ''middle''] @
               map (\<lambda>s. SetFont (fontOf fs s)) tried @
               [SetFont (fontOf fs drawFontSize),
                SetShadowColor (presetShadowColor (preset st) fs),
                SetShadowBlur (presetShadowBlur (preset st) fs),
                SetShadowOffsetX 0,
                SetShadowOffsetY (presetShadowOffsetY (preset st) fs),
                SetLineWidth (presetStrokeWidth (preset st) fs drawFontSize),
                SetStrokeStyle (Color (presetStrokeColor (preset st) fs))] @
               strokeLines fs y0 drawFontSize lines @
               [SetFillStyle (presetFill (preset st) fs y0 totalH drawFontSize)] @
               fillLines fs y0 drawFontSize lines @
               [SetShadowColor ''transparent'', SetShadowBlur 0, SetShadowOffsetY 0]))"

definition draw :: "browser \<Rightarrow> composer \<Rightarrow> cmd list" where
  "draw env st =
     (if \<not> canvasReady env then []
      else SetCanvasSize W H # backgroundLayer env st @ drawBottomPlate @ logoLayer env st @
           textLayer env st)"

text \<open>The text calls of a command list.\<close>

fun isTextCall :: "cmd \<Rightarrow> bool" where
  "isTextCall (StrokeText row x y) = True"
| "isTextCall (FillText row x y) = True"
| "isTextCall _ = False"

text \<open>The writes of \<open>ctx.textBaseline\<close> together with the text calls.\<close>

fun isBaselineOrText :: "cmd \<Rightarrow> bool" where
  "isBaselineOrText (SetTextBaseline v) = True"
| "isBaselineOrText (StrokeText row x y) = True"
| "isBaselineOrText (FillText row x y) = True"
| "isBaselineOrText _ = False"

text \<open>The \<open>y\<close> of the text calls of a command list, \<open>strokeText\<close> and \<open>fillText\<close>, in order.\<close>

fun textYs :: "cmd list \<Rightarrow> real list" where
  "textYs [] = []"
| "textYs (StrokeText row x y # cs) = y # textYs cs"
| "textYs (FillText row x y # cs) = y # textYs cs"
| "textYs (c # cs) = textYs cs"

text \<open>
  The lines are drawn on the middle baseline, so a line covers half a line height on
  each side of its \<open>y\<close>, and the block of lines is centred half way between the least and
  the greatest \<open>y\<close> of the text calls.
\<close>

definition blockCentre :: "real list \<Rightarrow> real option" where
  "blockCentre ys = (if ys = [] then None else Some ((Min (set ys) + Max (set ys)) / 2))"

section \<open>Notions of the statements and test inputs\<close>

text \<open>\<open>DEFAULT_TEXT\<close>, the Thai placeholder of the text box, as its 19 code units.\<close>

definition DEFAULT_TEXT :: jsstring where
  "DEFAULT_TEXT =
     [0x0E1E, 0x0E34, 0x0E21, 0x0E1E, 0x0E4C, 0x0E02, 0x0E49, 0x0E2D, 0x0E04, 0x0E27, 0x0E32,
      0x0E21, 0x0E15, 0x0E23, 0x0E07, 0x0E19, 0x0E35, 0x0E49, 0x2026]"

text \<open>A measure that gives every code unit one pixel, whatever the font.\<close>

definition unitWidth :: "jsstring \<Rightarrow> real" where
  "unitWidth row = real (length row)"

text \<open>A measure that gives every code unit the width of the font size.\<close>

definition emWidth :: "font \<Rightarrow> jsstring \<Rightarrow> real" where
  "emWidth f row = fSizePx f * real (length row)"


text \<open>
  The pixel at index \<open>k\<close> of the byte array, as the loop reads it: \<open>data[4k]\<close>,
  \<open>data[4k + 1]\<close>, \<open>data[4k + 2]\<close>.
\<close>

definition pixelAt :: "8 word list \<Rightarrow> nat \<Rightarrow> RGB" where
  "pixelAt data k = pixel (data ! (4 * k)) (data ! (4 * k + 1)) (data ! (4 * k + 2))"

text \<open>The index \<open>k\<close> is the first one at which the score is greatest.\<close>

definition firstMaxAt :: "RGB list \<Rightarrow> nat \<Rightarrow> bool" where
  "firstMaxAt px k =
     (k < length px \<and> (\<forall>j < length px. score (px ! j) \<le> score (px ! k)) \<and>
      (\<forall>j < k. score (px ! j) < score (px ! k)))"

text \<open>
  The luminance and the score as the specification words them, in exact arithmetic:
  \<open>0.299 r + 0.587 g + 0.114 b\<close> and \<open>0.6 saturation + 0.4 contrastToMid\<close>.
\<close>

definition exactLuminance :: "RGB \<Rightarrow> real" where
  "exactLuminance c = 0.299 * rgb_r c + 0.587 * rgb_g c + 0.114 * rgb_b c"

definition exactScore :: "RGB \<Rightarrow> real" where
  "exactScore c =
     (let mx = max (rgb_r c) (max (rgb_g c) (rgb_b c));
          mn = min (rgb_r c) (min (rgb_g c) (rgb_b c));
          saturation = (if mx = 0 then 0 else (mx - mn) / mx);
          contrastToMid = \<bar>exactLuminance c - 128\<bar> / 128
      in 0.6 * saturation + 0.4 * contrastToMid)"

text \<open>
  Sampled images of 64 by 64 pixels: one of a single colour, one of a single grey \<open>v\<close>,
  one whose first pixel is white and whose other 4095 pixels are the grey 1, which has
  the same score as white, and one whose first two pixels are the greys 129 and 127 and
  whose other 4094 pixels are the grey 128.
\<close>

definition flatImage :: "8 word \<Rightarrow> 8 word \<Rightarrow> 8 word \<Rightarrow> image" where
  "flatImage pr pg pb =
     \<lparr>width = 64, height = 64, sampled = Some (concat (replicate (64 * 64) [pr, pg, pb, 255]))\<rparr>"

definition greyImage :: "8 word \<Rightarrow> image" where
  "greyImage v =
     \<lparr>width = 64, height = 64, sampled = Some (concat (replicate (64 * 64) [v, v, v, 255]))\<rparr>"

definition tieImage :: image where
  "tieImage =
     \<lparr>width = 64, height = 64,
      sampled = Some ([255, 255, 255, 255] @ concat (replicate 4095 [1, 1, 1, 255]))\<rparr>"

definition driftImage :: image where
  "driftImage =
     \<lparr>width = 64, height = 64,
      sampled = Some ([129, 129, 129, 255, 127, 127, 127, 255] @
                      concat (replicate 4094 [128, 128, 128, 255]))\<rparr>"

text \<open>
  Four random draws, and a browser answer that loads every source as the black 64 by 64
  image.
\<close>

definition sampleDraws :: draws where
  "sampleDraws = \<lparr>uSize = 1 / 2, uPadding = 1 / 2, uFont = 1 / 5, uLineHeight = 1 / 2\<rparr>"

definition blackPhoto :: "string \<Rightarrow> image option" where
  "blackPhoto src = Some (greyImage 0)"

text \<open>
  A browser with a canvas where no source loads, and the state of the component as it
  starts (the font loader giving no family name).
\<close>

definition testBrowser :: browser where
  "testBrowser = \<lparr>canvasReady = True, decode = (\<lambda>src. None), measureText = emWidth\<rparr>"

definition initialComposer :: composer where
  "initialComposer =
     \<lparr>imageUrl = [], preset = Adaptive, logoUrl = [],
      logoSettings = \<lparr>logoSize = 120, logoOpacity = 0.35, logoBlur = 1, logoPadding = 40\<rparr>,
      textValue = DEFAULT_TEXT, fontStyle = initialFontStyle []\<rparr>"

text \<open>
  A photo of 1000 by 1000 pixels, a browser that loads it from every source, and the
  initial state with a background image chosen.
\<close>

definition squarePhoto :: image where
  "squarePhoto = \<lparr>width = 1000, height = 1000, sampled = None\<rparr>"

definition photoBrowser :: browser where
  "photoBrowser = \<lparr>canvasReady = True, decode = (\<lambda>src. Some squarePhoto), measureText = emWidth\<rparr>"

definition photoComposer :: composer where
  "photoComposer = initialComposer\<lparr>imageUrl := ''blob:photo''\<rparr>"

text \<open>
  The font in force at the first text call of a command list: the last value written to
  \<open>ctx.font\<close> before it, \<open>cur\<close> standing for the value on entry.
\<close>

fun fontAtText :: "font option \<Rightarrow> cmd list \<Rightarrow> font option" where
  "fontAtText cur [] = None"
| "fontAtText cur (SetFont f # cs) = fontAtText (Some f) cs"
| "fontAtText cur (StrokeText row x y # cs) = cur"
| "fontAtText cur (FillText row x y # cs) = cur"
| "fontAtText cur (c # cs) = fontAtText cur cs"

text \<open>
  Two texts for the initial state: two words of eight letters, \<open>"aaaaaaaa bbbbbbbb"\<close>,
  and a letter followed by a word of 24 letters, \<open>"a WWWWWWWWWWWWWWWWWWWWWWWW"\<close>.
\<close>

definition twoLineText :: jsstring where
  "twoLineText = [97, 97, 97, 97, 97, 97, 97, 97, 32, 98, 98, 98, 98, 98, 98, 98, 98]"

definition twoLineComposer :: composer where
  "twoLineComposer = initialComposer\<lparr>textValue := twoLineText\<rparr>"

definition overflowText :: jsstring where
  "overflowText =
     [97, 32, 87, 87, 87, 87, 87, 87, 87, 87, 87, 87, 87, 87, 87, 87, 87, 87, 87, 87, 87, 87, 87,
      87, 87, 87]"

definition overflowComposer :: composer where
  "overflowComposer = initialComposer\<lparr>textValue := overflowText\<rparr>"

section \<open>Wrapping\<close>

lemmas wrap_defs = wrapText_def paragraphsOf_def stripCR_def CR_def NL_def SP_def
  wrapParagraph_def wrapTokens_def wrapStep_def tokens_def hasSpace_def unitWidth_def
  allTokens_def

lemma unitWidth_extension: "unitWidth row \<le> unitWidth (row @ rest)"
  by (simp add: unitWidth_def)









lemma splitOn_nosep: "sep \<notin> set t \<Longrightarrow> splitOn sep cur t = [cur @ t]"
  by (induction t arbitrary: cur) auto

lemma concat_glyphs: "concat (filter (\<lambda>t. t \<noteq> []) (map (\<lambda>c. [c]) p)) = p"
  by (induction p) auto

lemma wrapStep_glyph:
  assumes "wrapStep mt maxWidth False (line, lines) piece = (l1, ls1)"
    and "\<forall>row \<in> set lines. row \<noteq> []"
  shows "(\<forall>row \<in> set ls1. row \<noteq> []) \<and> concat ls1 @ l1 = concat lines @ line @ piece"
proof (cases "line = []")
  case True
  then have "l1 = piece" "ls1 = lines" using assms(1) by (simp_all add: wrapStep_def)
  then show ?thesis using True assms(2) by simp
next
  case False
  show ?thesis
  proof (cases "mt (line @ piece) > maxWidth")
    case True
    then have "l1 = piece" "ls1 = lines @ [line]"
      using assms(1) False by (simp_all add: wrapStep_def)
    then show ?thesis using False assms(2) by simp
  next
    case F2: False
    then have "l1 = line @ piece" "ls1 = lines"
      using assms(1) False by (simp_all add: wrapStep_def)
    then show ?thesis using assms(2) by simp
  qed
qed

lemma wrapTokens_glyph:
  "\<forall>row \<in> set lines. row \<noteq> [] \<Longrightarrow>
   wrapTokens mt maxWidth False toks line lines = (line', lines') \<Longrightarrow>
   (\<forall>row \<in> set lines'. row \<noteq> []) \<and> concat lines' @ line' = concat lines @ line @ concat toks"
proof (induction toks arbitrary: line lines)
  case Nil
  then show ?case by (simp add: wrapTokens_def)
next
  case (Cons piece rest)
  obtain l1 ls1 where st: "wrapStep mt maxWidth False (line, lines) piece = (l1, ls1)"
    by (cases "wrapStep mt maxWidth False (line, lines) piece")
  have a: "\<forall>row \<in> set ls1. row \<noteq> []" and a2: "concat ls1 @ l1 = concat lines @ line @ piece"
    using wrapStep_glyph [OF st Cons.prems(1)] by simp_all
  have b: "wrapTokens mt maxWidth False rest l1 ls1 = (line', lines')"
    using Cons.prems(2) st by (simp add: wrapTokens_def)
  have r: "(\<forall>row \<in> set lines'. row \<noteq> []) \<and> concat lines' @ line' = concat ls1 @ l1 @ concat rest"
    by (rule Cons.IH [OF a b])
  have "concat ls1 @ l1 @ concat rest = (concat ls1 @ l1) @ concat rest" by simp
  also have "\<dots> = concat lines @ line @ concat (piece # rest)" by (simp only: a2) simp
  finally show ?case using r by simp
qed

lemma stripCR_no: "c \<notin> set t \<Longrightarrow> c \<notin> set (stripCR t)"
  by (simp add: stripCR_def)

text \<open>
  Claim C5, as the code has it. For every text with no space and no line feed,
  \<open>wrapText\<close> returns only non-empty lines, and the lines joined in order are the text
  with its carriage returns removed, which is the text itself when it holds none.
\<close>

theorem wrapText_glyph_roundtrip:
  assumes "SP \<notin> set t" and "NL \<notin> set t"
  shows "(\<forall>row \<in> set (wrapText mt t maxWidth). row \<noteq> []) \<and>
         concat (wrapText mt t maxWidth) = stripCR t"
proof -
  define p where "p = stripCR t"
  have nl: "NL \<notin> set p" and sp: "\<not> hasSpace p"
    using assms stripCR_no by (simp_all add: p_def hasSpace_def)
  have ps: "paragraphsOf t = [p]"
    using splitOn_nosep [OF nl, of "[]"] by (simp add: paragraphsOf_def p_def)
  obtain l1 ls1 where w: "wrapTokens mt maxWidth False (tokens p) [] [] = (l1, ls1)"
    by (cases "wrapTokens mt maxWidth False (tokens p) [] []")
  have ct: "concat (tokens p) = p" using sp by (simp add: tokens_def concat_glyphs)
  have e: "\<forall>row \<in> set ([] :: jsstring list). row \<noteq> []" by simp
  have r: "(\<forall>row \<in> set ls1. row \<noteq> []) \<and> concat ls1 @ l1 = p"
    using wrapTokens_glyph [OF e w] ct by simp
  have wt: "wrapText mt t maxWidth = (if l1 \<noteq> [] then ls1 @ [l1] else ls1)"
    using sp w by (simp add: wrapText_def ps wrapParagraph_def)
  show ?thesis
  proof (cases "l1 = []")
    case True
    then show ?thesis using r wt by (simp add: p_def)
  next
    case False
    then show ?thesis using r wt by (simp add: p_def)
  qed
qed

theorem wrapText_glyph_roundtrip_witness:
  "SP \<notin> set DEFAULT_TEXT \<and> NL \<notin> set DEFAULT_TEXT \<and>
   length (wrapText unitWidth DEFAULT_TEXT 8) = 3 \<and>
   [] \<notin> set (wrapText unitWidth DEFAULT_TEXT 8) \<and>
   concat (wrapText unitWidth DEFAULT_TEXT 8) = DEFAULT_TEXT"
proof -
  have a: "SP \<notin> set DEFAULT_TEXT" and b: "NL \<notin> set DEFAULT_TEXT"
    by (simp_all add: DEFAULT_TEXT_def SP_def NL_def)
  have c: "stripCR DEFAULT_TEXT = DEFAULT_TEXT"
    by (simp add: DEFAULT_TEXT_def stripCR_def CR_def)
  have d: "length (wrapText unitWidth DEFAULT_TEXT 8) = 3"
    by (simp add: DEFAULT_TEXT_def wrap_defs)
  show ?thesis
    using wrapText_glyph_roundtrip [OF a b, of unitWidth 8] a b c d by auto
qed

text \<open>
  The claim as the specification states it fails on a carriage return: \<open>"a\rb"\<close> has no
  space and no line feed, is wrapped as the one line \<open>"ab"\<close>, and that is not the text.
\<close>

theorem wrapText_carriage_return_counterexample:
  "SP \<notin> set [97, 13, 98] \<and> NL \<notin> set [97, 13, 98] \<and>
   wrapText unitWidth [97, 13, 98] 10 = [[97, 98]] \<and>
   concat (wrapText unitWidth [97, 13, 98] 10) \<noteq> [97, 13, 98]"
  by (simp add: wrap_defs)

section \<open>Rounding to a double\<close>

lemma expoUp_numeral:
  "expoUp (numeral k) x = (if 2 \<le> x then Suc (expoUp (pred_numeral k) (x / 2)) else 0)"
  by (simp add: numeral_eq_Suc)

lemma expoDown_numeral:
  "expoDown (numeral k) x = (if x < 1 then Suc (expoDown (pred_numeral k) (x * 2)) else 0)"
  by (simp add: numeral_eq_Suc)

lemmas fl_eval = fl_def exponent_def roundEven_def pow2_def expoUp_numeral expoDown_numeral Let_def

lemmas f_ops = fadd_def fsub_def fmul_def fdiv_def

text \<open>The doubles of the five literals of the analysis.\<close>

lemma c299: "fl 0.299 = 5386305154335113 / 18014398509481984"
  by (simp add: fl_eval)

lemma c587: "fl 0.587 = 2643612981266481 / 4503599627370496"
  by (simp add: fl_eval)

lemma c114: "fl 0.114 = 8214565720323785 / 72057594037927936"
  by (simp add: fl_eval)

lemma c06: "fl 0.6 = 5404319552844595 / 9007199254740992"
  by (simp add: fl_eval)

lemma c04: "fl 0.4 = 3602879701896397 / 9007199254740992"
  by (simp add: fl_eval)

lemma pow2_powr: "pow2 e = 2 powr real_of_int e"
  by (simp add: pow2_def powr_real_of_int inverse_eq_divide)

lemma pow2_pos: "0 < pow2 e"
  by (simp add: pow2_powr)

lemma pow2_add: "pow2 (a + b) = pow2 a * pow2 b"
  by (simp add: pow2_powr powr_add)

lemma pow2_nat: "pow2 (int n) = 2 ^ n"
  by (simp add: pow2_def)

lemma pow2_less: "pow2 a < pow2 b \<Longrightarrow> a < b"
  by (simp add: pow2_powr)

lemma expoUp_le: "1 \<le> x \<Longrightarrow> 2 ^ expoUp n x \<le> x"
proof (induction n arbitrary: x)
  case 0
  then show ?case by simp
next
  case (Suc n)
  show ?case
  proof (cases "2 \<le> x")
    case True
    then have "2 ^ expoUp n (x / 2) \<le> x / 2" by (intro Suc.IH) simp
    then show ?thesis using True by simp
  next
    case False
    then show ?thesis using Suc.prems by simp
  qed
qed

lemma expoDown_le: "0 < x \<Longrightarrow> 1 \<le> x * 2 ^ n \<Longrightarrow> 1 \<le> x * 2 ^ expoDown n x"
proof (induction n arbitrary: x)
  case 0
  then show ?case by simp
next
  case (Suc n)
  show ?case
  proof (cases "x < 1")
    case True
    have "1 \<le> (x * 2) * 2 ^ expoDown n (x * 2)"
      using Suc.prems by (intro Suc.IH) (simp_all add: mult.assoc)
    then show ?thesis using True by (simp add: mult.assoc)
  next
    case False
    then show ?thesis by simp
  qed
qed

text \<open>The exponent found is not above the magnitude, for a number not below \<open>2 ^ - 1100\<close>.\<close>

lemma exponent_le:
  assumes "x \<noteq> 0" and "1 \<le> \<bar>x\<bar> * 2 ^ 1100"
  shows "pow2 (exponent x) \<le> \<bar>x\<bar>"
proof (cases "1 \<le> \<bar>x\<bar>")
  case True
  then have "2 ^ expoUp 1100 \<bar>x\<bar> \<le> \<bar>x\<bar>" by (rule expoUp_le)
  then show ?thesis using True by (simp only: exponent_def if_True pow2_nat)
next
  case False
  define d where "d = expoDown 1100 \<bar>x\<bar>"
  have "0 < \<bar>x\<bar>" using assms(1) by simp
  then have "1 \<le> \<bar>x\<bar> * 2 ^ d" unfolding d_def using assms(2) by (rule expoDown_le)
  then have "1 / 2 ^ d \<le> \<bar>x\<bar>" by (simp add: pos_divide_le_eq)
  moreover have "pow2 (- int d) = 1 / 2 ^ d" by (simp add: pow2_def)
  ultimately show ?thesis using False by (simp only: exponent_def if_False d_def)
qed

lemma roundEven_int: "roundEven (of_int m) = m"
  by (simp add: roundEven_def)

lemma roundEven_nonneg: "0 \<le> q \<Longrightarrow> 0 \<le> roundEven q"
  by (simp add: roundEven_def Let_def)

lemma fl_0: "fl 0 = 0"
  by (simp add: fl_def)

text \<open>A number of at most 53 significant bits is a double: rounding leaves it as it is.\<close>

lemma fl_exact:
  assumes x: "x = of_int k * pow2 j" and k: "\<bar>k\<bar> < 2 ^ 53"
    and r: "x = 0 \<or> 1 \<le> \<bar>x\<bar> * 2 ^ 1100"
  shows "fl x = x"
proof (cases "x = 0")
  case True
  then show ?thesis by (simp only: fl_0)
next
  case False
  define e where "e = exponent x"
  have r': "1 \<le> \<bar>x\<bar> * 2 ^ 1100" using r False by blast
  have kk: "\<bar>real_of_int k\<bar> < 2 ^ 53"
  proof -
    have "real_of_int \<bar>k\<bar> < real_of_int (2 ^ 53)" using k by (simp only: of_int_less_iff)
    then show ?thesis by simp
  qed
  have "pow2 e \<le> \<bar>x\<bar>" unfolding e_def using False r' by (rule exponent_le)
  also have "\<bar>x\<bar> = \<bar>of_int k\<bar> * pow2 j"
    using pow2_pos [of j] by (simp only: x abs_mult abs_of_pos)
  also have "\<dots> < 2 ^ 53 * pow2 j"
    using kk pow2_pos [of j] by (simp only: mult_less_cancel_right_pos)
  also have "\<dots> = pow2 (53 + j)" using pow2_nat [of 53] by (simp add: pow2_add)
  finally have ej: "e < 53 + j" by (rule pow2_less)
  define n where "n = nat (j - e + 52)"
  have n: "j = (e - 52) + int n" using ej by (simp add: n_def)
  have pj: "pow2 j = pow2 (e - 52) * 2 ^ n"
    using pow2_add [of "e - 52" "int n"] by (simp only: n [symmetric] pow2_nat)
  have u: "pow2 (e - 52) \<noteq> 0" using pow2_pos [of "e - 52"] by simp
  have "x / pow2 (e - 52) = of_int (k * 2 ^ n)"
    using u by (simp add: x pj)
  then have "roundEven (x / pow2 (e - 52)) = k * 2 ^ n" by (simp only: roundEven_int)
  then have "fl x = of_int (k * 2 ^ n) * pow2 (e - 52)"
    using False by (simp only: fl_def Let_def e_def if_False)
  then show ?thesis by (simp add: x pj)
qed

lemma in_range:
  fixes x :: real
  assumes "1 \<le> x * 2 ^ 40"
  shows "1 \<le> \<bar>x\<bar> * 2 ^ 1100"
proof -
  have e: "(1100::nat) = 40 + 1060" by simp
  have p: "(2::real) ^ 1100 = 2 ^ 40 * 2 ^ 1060" by (subst e) (rule power_add)
  have "0 < x * 2 ^ 40" using assms by linarith
  then have x: "0 < x" by (simp only: zero_less_mult_iff) simp
  have "(1::real) \<le> 2 ^ 1060" by (rule one_le_power) simp
  then have "1 * 1 \<le> (x * 2 ^ 40) * 2 ^ 1060" using assms by (intro mult_mono) simp_all
  then show ?thesis using x by (simp only: p abs_of_pos mult.assoc mult_1)
qed

lemma nat_mantissa: "n < 2 ^ 53 \<Longrightarrow> \<bar>int n\<bar> < 2 ^ 53"
proof -
  assume "n < 2 ^ 53"
  then have "int n < int (2 ^ 53)" by (simp only: of_nat_less_iff)
  then show ?thesis by simp
qed

text \<open>Every natural number below \<open>2 ^ 53\<close> is a double, and so is its quotient by 4096.\<close>

lemma fl_nat:
  assumes "n < 2 ^ 53"
  shows "fl (real n) = real n"
proof -
  have x: "real n = of_int (int n) * pow2 0" by (simp add: pow2_def)
  have "real n = 0 \<or> 1 \<le> \<bar>real n\<bar> * 2 ^ 1100"
  proof (cases "n = 0")
    case True
    then show ?thesis by simp
  next
    case False
    then have "1 \<le> real n" by simp
    then have "1 \<le> real n * 2 ^ 40" by simp
    then show ?thesis by (intro disjI2 in_range)
  qed
  then show ?thesis by (rule fl_exact [OF x nat_mantissa [OF assms]])
qed

lemma fl_div_4096:
  assumes "n < 2 ^ 53"
  shows "fl (real n / 4096) = real n / 4096"
proof -
  have x: "real n / 4096 = of_int (int n) * pow2 (- 12)" by (simp add: pow2_def)
  have "real n / 4096 = 0 \<or> 1 \<le> \<bar>real n / 4096\<bar> * 2 ^ 1100"
  proof (cases "n = 0")
    case True
    then show ?thesis by simp
  next
    case False
    then have "1 \<le> real n" by simp
    then have "1 \<le> real n / 4096 * 2 ^ 40" by simp
    then show ?thesis by (intro disjI2 in_range)
  qed
  then show ?thesis by (rule fl_exact [OF x nat_mantissa [OF assms]])
qed

lemma fl_nonneg:
  assumes "0 \<le> x"
  shows "0 \<le> fl x"
proof (cases "x = 0")
  case True
  then show ?thesis by (simp only: fl_0)
next
  case False
  define u where "u = pow2 (exponent x - 52)"
  have u: "0 < u" unfolding u_def by (rule pow2_pos)
  have "0 \<le> x / u" using assms u by simp
  then have "0 \<le> roundEven (x / u)" by (rule roundEven_nonneg)
  then have "0 \<le> real_of_int (roundEven (x / u)) * u" using u by simp
  moreover have "fl x = real_of_int (roundEven (x / u)) * u"
    using False by (simp only: fl_def Let_def u_def if_False)
  ultimately show ?thesis by simp
qed

text \<open>
  Rounding moves a number by at most half a unit of its last place, which is at most
  \<open>2 ^ - 53\<close> of its magnitude.
\<close>

lemma roundEven_error: "\<bar>real_of_int (roundEven q) - q\<bar> \<le> 1 / 2"
proof -
  define f where "f = \<lfloor>q\<rfloor>"
  define d where "d = q - of_int f"
  define k where "k = roundEven q"
  have d: "0 \<le> d" "d < 1" unfolding d_def f_def by linarith+
  have re: "k = (if d < 1 / 2 then f else if 1 / 2 < d then f + 1 else if even f then f else f + 1)"
    by (simp only: k_def roundEven_def Let_def f_def d_def)
  have down: "real_of_int k - q = - d" if "k = f" using that by (simp add: d_def)
  have up: "real_of_int k - q = 1 - d" if "k = f + 1" using that by (simp add: d_def)
  consider "d < 1 / 2" | "1 / 2 < d" | "d = 1 / 2" by linarith
  then have "\<bar>real_of_int k - q\<bar> \<le> 1 / 2"
  proof cases
    case 1
    then have "k = f" by (simp add: re)
    then have "real_of_int k - q = - d" by (rule down)
    then show ?thesis using 1 d by linarith
  next
    case 2
    then have "k = f + 1" by (simp add: re)
    then have "real_of_int k - q = 1 - d" by (rule up)
    then show ?thesis using 2 d by linarith
  next
    case 3
    then have "k = f \<or> k = f + 1" by (simp add: re)
    then show ?thesis
    proof
      assume "k = f"
      then have "real_of_int k - q = - d" by (rule down)
      then show ?thesis using 3 by linarith
    next
      assume "k = f + 1"
      then have "real_of_int k - q = 1 - d" by (rule up)
      then show ?thesis using 3 by linarith
    qed
  qed
  then show ?thesis by (simp only: k_def)
qed

lemma fl_error:
  assumes "x = 0 \<or> 1 \<le> \<bar>x\<bar> * 2 ^ 1100"
  shows "\<bar>fl x - x\<bar> \<le> \<bar>x\<bar> / 2 ^ 53"
proof (cases "x = 0")
  case True
  then show ?thesis by (simp add: fl_0)
next
  case False
  define e where "e = exponent x"
  define u where "u = pow2 (e - 52)"
  have r: "1 \<le> \<bar>x\<bar> * 2 ^ 1100" using assms False by blast
  have u: "0 < u" unfolding u_def by (rule pow2_pos)
  have le: "pow2 e \<le> \<bar>x\<bar>" unfolding e_def using False r by (rule exponent_le)
  have "pow2 e = pow2 (e - 52) * pow2 52" using pow2_add [of "e - 52" 52] by simp
  then have pe: "pow2 e = u * 2 ^ 52" using pow2_nat [of 52] by (simp add: u_def)
  have fx: "fl x = real_of_int (roundEven (x / u)) * u"
    using False by (simp only: fl_def Let_def u_def e_def if_False)
  have "fl x - x = (real_of_int (roundEven (x / u)) - x / u) * u"
    using u by (simp add: fx field_simps)
  then have "\<bar>fl x - x\<bar> = \<bar>real_of_int (roundEven (x / u)) - x / u\<bar> * u"
    using u by (simp add: abs_mult)
  also have "\<dots> \<le> 1 / 2 * u"
    using roundEven_error [of "x / u"] u by (intro mult_right_mono) simp_all
  also have "\<dots> = pow2 e / 2 ^ 53" by (simp add: pe)
  also have "\<dots> \<le> \<bar>x\<bar> / 2 ^ 53" using le by (simp add: divide_right_mono)
  finally show ?thesis .
qed

lemma fl_error_pos:
  assumes "0 \<le> x" and "x = 0 \<or> 1 \<le> x * 2 ^ 40"
  shows "\<bar>fl x - x\<bar> \<le> x / 2 ^ 53"
proof -
  have "x = 0 \<or> 1 \<le> \<bar>x\<bar> * 2 ^ 1100" using assms(2) in_range by blast
  then have "\<bar>fl x - x\<bar> \<le> \<bar>x\<bar> / 2 ^ 53" by (rule fl_error)
  then show ?thesis using assms(1) by simp
qed

lemma fl_step:
  assumes "0 \<le> x" and "x \<le> m" and "x = 0 \<or> 1 / 2 ^ 29 \<le> x"
  shows "fl x - x \<le> m / 2 ^ 53" and "x - fl x \<le> m / 2 ^ 53" and "x / 2 \<le> fl x"
proof -
  have rg: "x = 0 \<or> 1 \<le> x * 2 ^ 40"
  proof (cases "x = 0")
    case True
    then show ?thesis by simp
  next
    case False
    then have "1 / 2 ^ 29 \<le> x" using assms(3) by blast
    then have "1 \<le> x * 2 ^ 29" by (simp add: field_simps)
    moreover have "x * 2 ^ 29 \<le> x * 2 ^ 40" using assms(1) by (intro mult_left_mono) simp_all
    ultimately show ?thesis by linarith
  qed
  have e: "\<bar>fl x - x\<bar> \<le> x / 2 ^ 53" using assms(1) rg by (rule fl_error_pos)
  have xm: "x / 2 ^ 53 \<le> m / 2 ^ 53" using assms(2) by (simp add: divide_right_mono)
  show "fl x - x \<le> m / 2 ^ 53" and "x - fl x \<le> m / 2 ^ 53" using e xm by linarith+
  have "x / 2 ^ 53 \<le> x / 2" using assms(1) by (intro divide_left_mono) simp_all
  then show "x / 2 \<le> fl x" using e by linarith
qed

text \<open>The luminance and the score that the code computes for some colours.\<close>

lemmas tone_eval = score_def getLuminance_def f_ops c299 c587 c114 c06 c04 Let_def

lemma luminance_black: "getLuminance \<lparr>rgb_r = 0, rgb_g = 0, rgb_b = 0\<rparr> = 0"
  by (simp add: tone_eval fl_0)

lemma luminance_114: "getLuminance \<lparr>rgb_r = 114, rgb_g = 114, rgb_b = 114\<rparr> = 114 - 1 / 2 ^ 46"
  by (simp add: tone_eval) (simp add: fl_eval)

lemma luminance_115: "getLuminance \<lparr>rgb_r = 115, rgb_g = 115, rgb_b = 115\<rparr> = 115 - 1 / 2 ^ 46"
  by (simp add: tone_eval) (simp add: fl_eval)

lemma luminance_teal: "getLuminance \<lparr>rgb_r = 3, rgb_g = 167, rgb_b = 141\<rparr> = 115"
  by (simp add: tone_eval) (simp add: fl_eval)

lemma score_white:
  "score \<lparr>rgb_r = 255, rgb_g = 255, rgb_b = 255\<rparr> = 7149464408450663 / 18014398509481984"
  by (simp add: tone_eval) (simp add: fl_eval)

lemma score_1:
  "score \<lparr>rgb_r = 1, rgb_g = 1, rgb_b = 1\<rparr> = 7149464408450663 / 18014398509481984"
  by (simp add: tone_eval) (simp add: fl_eval)

lemma score_129:
  "score \<lparr>rgb_r = 129, rgb_g = 129, rgb_b = 129\<rparr> = 3602879701896397 / 1152921504606846976"
  by (simp add: tone_eval) (simp add: fl_eval)

lemma score_127:
  "score \<lparr>rgb_r = 127, rgb_g = 127, rgb_b = 127\<rparr> = 14073748835533 / 4503599627370496"
  by (simp add: tone_eval) (simp add: fl_eval)

lemma score_128:
  "score \<lparr>rgb_r = 128, rgb_g = 128, rgb_b = 128\<rparr> =
     3602879701896397 / 81129638414606681695789005144064"
  by (simp add: tone_eval) (simp add: fl_eval)

text \<open>
  The computed luminance of a colour whose channels lie between 0 and 255 and are 0 or
  at least \<open>1 / 4096\<close> is within \<open>2 ^ - 42\<close> of the exact \<open>0.299 r + 0.587 g + 0.114 b\<close>.
\<close>

lemma luminance_error:
  fixes r g b :: real
  assumes r: "0 \<le> r" "r \<le> 255" "r = 0 \<or> 1 / 4096 \<le> r"
    and g: "0 \<le> g" "g \<le> 255" "g = 0 \<or> 1 / 4096 \<le> g"
    and b: "0 \<le> b" "b \<le> 255" "b = 0 \<or> 1 / 4096 \<le> b"
  shows "\<bar>getLuminance \<lparr>rgb_r = r, rgb_g = g, rgb_b = b\<rparr> - (0.299 * r + 0.587 * g + 0.114 * b)\<bar>
         \<le> 1 / 2 ^ 42"
proof -
  define x1 where "x1 = 5386305154335113 / 18014398509481984 * r"
  define x2 where "x2 = 2643612981266481 / 4503599627370496 * g"
  define x3 where "x3 = 8214565720323785 / 72057594037927936 * b"
  define p1 where "p1 = fl x1"
  define p2 where "p2 = fl x2"
  define p3 where "p3 = fl x3"
  define s1 where "s1 = fl (p1 + p2)"
  define s2 where "s2 = fl (s1 + p3)"
  have lum: "getLuminance \<lparr>rgb_r = r, rgb_g = g, rgb_b = b\<rparr> = s2"
    by (simp only: getLuminance_def f_ops RGB.select_convs c299 c587 c114 s2_def s1_def
          p1_def p2_def p3_def x1_def x2_def x3_def)
  have x1: "0 \<le> x1" "x1 \<le> 77" "x1 = 0 \<or> 1 / 2 ^ 29 \<le> x1" "x1 = 0 \<or> 1 / 2 ^ 20 \<le> x1"
    "x1 - 0.299 * r \<le> 255 / 2 ^ 54" "0.299 * r - x1 \<le> 255 / 2 ^ 54"
    using r unfolding x1_def by auto
  have x2: "0 \<le> x2" "x2 \<le> 153" "x2 = 0 \<or> 1 / 2 ^ 29 \<le> x2" "x2 = 0 \<or> 1 / 2 ^ 20 \<le> x2"
    "x2 - 0.587 * g \<le> 255 / 2 ^ 54" "0.587 * g - x2 \<le> 255 / 2 ^ 54"
    using g unfolding x2_def by auto
  have x3: "0 \<le> x3" "x3 \<le> 30" "x3 = 0 \<or> 1 / 2 ^ 29 \<le> x3" "x3 = 0 \<or> 1 / 2 ^ 20 \<le> x3"
    "x3 - 0.114 * b \<le> 255 / 2 ^ 54" "0.114 * b - x3 \<le> 255 / 2 ^ 54"
    using b unfolding x3_def by auto
  note q1 = fl_step [OF x1(1,2,3), folded p1_def]
  note q2 = fl_step [OF x2(1,2,3), folded p2_def]
  note q3 = fl_step [OF x3(1,2,3), folded p3_def]
  have p1: "0 \<le> p1" "p1 \<le> 78" using q1(1,3) x1(1,2) by simp_all
  have p2: "0 \<le> p2" "p2 \<le> 154" using q2(1,3) x2(1,2) by simp_all
  have p3: "0 \<le> p3" "p3 \<le> 31" using q3(1,3) x3(1,2) by simp_all
  have z1: "p1 + p2 = 0 \<or> 1 / 2 ^ 21 \<le> p1 + p2"
  proof (cases "x1 = 0 \<and> x2 = 0")
    case True
    then show ?thesis by (simp add: p1_def p2_def fl_0)
  next
    case False
    then have "1 / 2 ^ 20 \<le> x1 \<or> 1 / 2 ^ 20 \<le> x2" using x1(4) x2(4) by blast
    then have "1 / 2 ^ 20 \<le> x1 + x2" using x1(1) x2(1) by linarith
    moreover have "(x1 + x2) / 2 \<le> p1 + p2"
      using q1(3) q2(3) by (simp add: add_divide_distrib add_mono)
    ultimately have "1 / 2 ^ 21 \<le> p1 + p2" by simp
    then show ?thesis by (rule disjI2)
  qed
  have t1: "0 \<le> p1 + p2" "p1 + p2 \<le> 232" "p1 + p2 = 0 \<or> 1 / 2 ^ 29 \<le> p1 + p2"
    using z1 p1 p2 by auto
  note u1 = fl_step [OF t1, folded s1_def]
  have s1: "0 \<le> s1" "s1 \<le> 233" using u1(1,3) t1(1,2) by simp_all
  have z2: "s1 + p3 = 0 \<or> 1 / 2 ^ 22 \<le> s1 + p3"
  proof (cases "p1 + p2 = 0 \<and> x3 = 0")
    case True
    then show ?thesis by (simp add: s1_def p3_def fl_0)
  next
    case False
    then have "1 / 2 ^ 21 \<le> p1 + p2 \<or> 1 / 2 ^ 20 \<le> x3" using z1 x3(4) by blast
    then have "1 / 2 ^ 21 \<le> (p1 + p2) + x3" using t1(1) x3(1) by auto
    moreover have "((p1 + p2) + x3) / 2 \<le> s1 + p3"
      using u1(3) q3(3) by (simp add: add_divide_distrib add_mono)
    ultimately have "1 / 2 ^ 22 \<le> s1 + p3" by simp
    then show ?thesis by (rule disjI2)
  qed
  have t2: "0 \<le> s1 + p3" "s1 + p3 \<le> 264" "s1 + p3 = 0 \<or> 1 / 2 ^ 29 \<le> s1 + p3"
    using z2 s1 p3 by auto
  note u2 = fl_step [OF t2, folded s2_def]
  have "s2 - (0.299 * r + 0.587 * g + 0.114 * b) \<le> 1 / 2 ^ 42"
    using u2(1) u1(1) q1(1) q2(1) q3(1) x1(5) x2(5) x3(5) by simp
  moreover have "(0.299 * r + 0.587 * g + 0.114 * b) - s2 \<le> 1 / 2 ^ 42"
    using u2(2) u1(2) q1(2) q2(2) q3(2) x1(6) x2(6) x3(6) by simp
  ultimately show ?thesis unfolding lum by linarith
qed

section \<open>Tone analysis\<close>

lemma pixelAt_0: "pixelAt (pr # pg # pb # pa # rest) 0 = pixel pr pg pb"
  by (simp add: pixelAt_def)

lemma pixelAt_Suc: "pixelAt (pr # pg # pb # pa # rest) (Suc k) = pixelAt rest k"
  by (simp add: pixelAt_def)

lemma pixelsOf_pixelAt:
  "length data = 4 * n \<Longrightarrow> pixelsOf data = map (pixelAt data) [0..<n]"
proof (induction n arbitrary: data)
  case 0
  then show ?case by simp
next
  case (Suc n)
  then obtain pr pg pb pa rest where d: "data = pr # pg # pb # pa # rest"
    by (cases data; simp; rename_tac a as; case_tac as; simp; rename_tac b bs; case_tac bs; simp;
        rename_tac c cs; case_tac cs; simp)
  have l: "length rest = 4 * n" using Suc.prems d by simp
  have "map (pixelAt data) [0..<Suc n] = pixelAt data 0 # map (pixelAt data \<circ> Suc) [0..<n]"
    by (simp only: upt_conv_Cons [of 0 "Suc n"] map_Suc_upt [symmetric] list.map map_map) 
  also have "\<dots> = pixel pr pg pb # map (pixelAt rest) [0..<n]"
    by (simp add: d pixelAt_0 pixelAt_Suc comp_def)
  finally show ?case using Suc.IH [OF l] by (simp add: d)
qed

lemma byte_nat: "unat (x :: 8 word) \<le> 255"
proof -
  have "unat x < 2 ^ 8" using unsigned_less [of x] by simp
  then show ?thesis by simp
qed

lemma byte_range: "0 \<le> real (unat (x :: 8 word)) \<and> real (unat x) \<le> 255"
proof -
  have "real (unat x) \<le> real 255" using byte_nat [of x] by (simp only: of_nat_le_iff)
  moreover have "0 \<le> real (unat x)" by (rule of_nat_0_le_iff)
  ultimately show ?thesis by simp
qed

lemma samplePixel_sumR: "sumR (samplePixel c s) = fadd (sumR s) (rgb_r c)"
  by (simp add: samplePixel_def Let_def)

lemma samplePixel_sumG: "sumG (samplePixel c s) = fadd (sumG s) (rgb_g c)"
  by (simp add: samplePixel_def Let_def)

lemma samplePixel_sumB: "sumB (samplePixel c s) = fadd (sumB s) (rgb_b c)"
  by (simp add: samplePixel_def Let_def)

text \<open>
  The three sums are sums of bytes; they stay below \<open>2 ^ 53\<close>, so no addition of the loop
  rounds.
\<close>

lemma foldl_sumR:
  assumes "sumR s = real a" and "a + 255 * length data < 2 ^ 53"
  shows "\<exists>m. sumR (foldl (\<lambda>s c. samplePixel c s) s (pixelsOf data)) = real m \<and>
             real m = real a + sum_list (map rgb_r (pixelsOf data)) \<and>
             m \<le> a + 255 * length data"
  using assms
proof (induction data arbitrary: s a rule: pixelsOf.induct)
  case (1 pr pg pb pa rest)
  define s' where "s' = samplePixel (pixel pr pg pb) s"
  define a' where "a' = a + unat pr"
  have b: "unat pr \<le> 255" by (rule byte_nat)
  have ch: "rgb_r (pixel pr pg pb) = real (unat pr)" by (simp only: pixel_def RGB.select_convs)
  have lt: "a' < 2 ^ 53" using "1.prems"(2) b by (simp add: a'_def)
  have "sumR s' = fl (real a + real (unat pr))"
    by (simp only: s'_def samplePixel_sumR "1.prems"(1) ch fadd_def)
  also have "\<dots> = fl (real a')" by (simp only: a'_def of_nat_add)
  also have "\<dots> = real a'" by (rule fl_nat [OF lt])
  finally have sa: "sumR s' = real a'" .
  have c: "a' + 255 * length rest < 2 ^ 53" using "1.prems"(2) b by (simp add: a'_def)
  obtain m where m1: "sumR (foldl (\<lambda>s c. samplePixel c s) s' (pixelsOf rest)) = real m"
    and m2: "real m = real a' + sum_list (map rgb_r (pixelsOf rest))"
    and m3: "m \<le> a' + 255 * length rest"
    using "1.IH" [OF sa c] by blast
  have f: "foldl (\<lambda>s c. samplePixel c s) s (pixelsOf (pr # pg # pb # pa # rest)) =
           foldl (\<lambda>s c. samplePixel c s) s' (pixelsOf rest)"
    by (simp add: s'_def)
  have "real m = real a + sum_list (map rgb_r (pixelsOf (pr # pg # pb # pa # rest)))"
    using m2 by (simp add: a'_def ch)
  moreover have "m \<le> a + 255 * length (pr # pg # pb # pa # rest)"
    using m3 b by (simp add: a'_def)
  ultimately show ?case using m1 unfolding f by blast
qed simp_all

lemma foldl_sumG:
  assumes "sumG s = real a" and "a + 255 * length data < 2 ^ 53"
  shows "\<exists>m. sumG (foldl (\<lambda>s c. samplePixel c s) s (pixelsOf data)) = real m \<and>
             real m = real a + sum_list (map rgb_g (pixelsOf data)) \<and>
             m \<le> a + 255 * length data"
  using assms
proof (induction data arbitrary: s a rule: pixelsOf.induct)
  case (1 pr pg pb pa rest)
  define s' where "s' = samplePixel (pixel pr pg pb) s"
  define a' where "a' = a + unat pg"
  have b: "unat pg \<le> 255" by (rule byte_nat)
  have ch: "rgb_g (pixel pr pg pb) = real (unat pg)" by (simp only: pixel_def RGB.select_convs)
  have lt: "a' < 2 ^ 53" using "1.prems"(2) b by (simp add: a'_def)
  have "sumG s' = fl (real a + real (unat pg))"
    by (simp only: s'_def samplePixel_sumG "1.prems"(1) ch fadd_def)
  also have "\<dots> = fl (real a')" by (simp only: a'_def of_nat_add)
  also have "\<dots> = real a'" by (rule fl_nat [OF lt])
  finally have sa: "sumG s' = real a'" .
  have c: "a' + 255 * length rest < 2 ^ 53" using "1.prems"(2) b by (simp add: a'_def)
  obtain m where m1: "sumG (foldl (\<lambda>s c. samplePixel c s) s' (pixelsOf rest)) = real m"
    and m2: "real m = real a' + sum_list (map rgb_g (pixelsOf rest))"
    and m3: "m \<le> a' + 255 * length rest"
    using "1.IH" [OF sa c] by blast
  have f: "foldl (\<lambda>s c. samplePixel c s) s (pixelsOf (pr # pg # pb # pa # rest)) =
           foldl (\<lambda>s c. samplePixel c s) s' (pixelsOf rest)"
    by (simp add: s'_def)
  have "real m = real a + sum_list (map rgb_g (pixelsOf (pr # pg # pb # pa # rest)))"
    using m2 by (simp add: a'_def ch)
  moreover have "m \<le> a + 255 * length (pr # pg # pb # pa # rest)"
    using m3 b by (simp add: a'_def)
  ultimately show ?case using m1 unfolding f by blast
qed simp_all

lemma foldl_sumB:
  assumes "sumB s = real a" and "a + 255 * length data < 2 ^ 53"
  shows "\<exists>m. sumB (foldl (\<lambda>s c. samplePixel c s) s (pixelsOf data)) = real m \<and>
             real m = real a + sum_list (map rgb_b (pixelsOf data)) \<and>
             m \<le> a + 255 * length data"
  using assms
proof (induction data arbitrary: s a rule: pixelsOf.induct)
  case (1 pr pg pb pa rest)
  define s' where "s' = samplePixel (pixel pr pg pb) s"
  define a' where "a' = a + unat pb"
  have b: "unat pb \<le> 255" by (rule byte_nat)
  have ch: "rgb_b (pixel pr pg pb) = real (unat pb)" by (simp only: pixel_def RGB.select_convs)
  have lt: "a' < 2 ^ 53" using "1.prems"(2) b by (simp add: a'_def)
  have "sumB s' = fl (real a + real (unat pb))"
    by (simp only: s'_def samplePixel_sumB "1.prems"(1) ch fadd_def)
  also have "\<dots> = fl (real a')" by (simp only: a'_def of_nat_add)
  also have "\<dots> = real a'" by (rule fl_nat [OF lt])
  finally have sa: "sumB s' = real a'" .
  have c: "a' + 255 * length rest < 2 ^ 53" using "1.prems"(2) b by (simp add: a'_def)
  obtain m where m1: "sumB (foldl (\<lambda>s c. samplePixel c s) s' (pixelsOf rest)) = real m"
    and m2: "real m = real a' + sum_list (map rgb_b (pixelsOf rest))"
    and m3: "m \<le> a' + 255 * length rest"
    using "1.IH" [OF sa c] by blast
  have f: "foldl (\<lambda>s c. samplePixel c s) s (pixelsOf (pr # pg # pb # pa # rest)) =
           foldl (\<lambda>s c. samplePixel c s) s' (pixelsOf rest)"
    by (simp add: s'_def)
  have "real m = real a + sum_list (map rgb_b (pixelsOf (pr # pg # pb # pa # rest)))"
    using m2 by (simp add: a'_def ch)
  moreover have "m \<le> a + 255 * length (pr # pg # pb # pa # rest)"
    using m3 b by (simp add: a'_def)
  ultimately show ?case using m1 unfolding f by blast
qed simp_all

lemma sum_list_range:
  "(\<forall>k < n. 0 \<le> f k \<and> f k \<le> (255 :: real)) \<Longrightarrow>
   0 \<le> sum_list (map f [0..<n]) \<and> sum_list (map f [0..<n]) \<le> 255 * real n"
proof (induction n)
  case 0
  then show ?case by simp
next
  case (Suc n)
  have "0 \<le> sum_list (map f [0..<n]) \<and> sum_list (map f [0..<n]) \<le> 255 * real n"
    using Suc by simp
  moreover have "0 \<le> f n \<and> f n \<le> 255" using Suc.prems by simp
  ultimately show ?case by (simp add: algebra_simps)
qed

lemma mean_range:
  assumes "\<forall>k < n. 0 \<le> f k \<and> f k \<le> (255 :: real)" and "0 < n"
  shows "0 \<le> sum_list (map f [0..<n]) / real n \<and> sum_list (map f [0..<n]) / real n \<le> 255"
proof -
  have a: "0 \<le> sum_list (map f [0..<n])" and b: "sum_list (map f [0..<n]) \<le> 255 * real n"
    using sum_list_range [OF assms(1)] by simp_all
  have "sum_list (map f [0..<n]) / real n \<le> 255"
    using b assms(2) by (simp add: pos_divide_le_eq)
  then show ?thesis using a by simp
qed

lemma score_nonneg:
  assumes "0 \<le> rgb_r c" "0 \<le> rgb_g c" "0 \<le> rgb_b c"
  shows "0 \<le> score c"
proof -
  define mx where "mx = max (rgb_r c) (max (rgb_g c) (rgb_b c))"
  define mn where "mn = min (rgb_r c) (min (rgb_g c) (rgb_b c))"
  define sat where "sat = (if mx = 0 then 0 else fdiv (fsub mx mn) mx)"
  define con where "con = fdiv \<bar>fsub (getLuminance c) 128\<bar> 128"
  have m: "mn \<le> mx" "0 \<le> mx" using assms by (simp_all add: mx_def mn_def)
  have "0 \<le> fsub mx mn" unfolding fsub_def using m(1) by (intro fl_nonneg) simp
  then have "0 \<le> fdiv (fsub mx mn) mx" unfolding fdiv_def using m(2) by (intro fl_nonneg) simp
  then have s: "0 \<le> sat" by (simp add: sat_def)
  have k: "0 \<le> con" unfolding con_def fdiv_def by (intro fl_nonneg) simp
  have c6: "0 \<le> fl 0.6" and c4: "0 \<le> fl 0.4" by (intro fl_nonneg; simp)+
  have "score c = fadd (fmul sat (fl 0.6)) (fmul con (fl 0.4))"
    by (simp only: score_def Let_def sat_def con_def mx_def mn_def)
  moreover have "0 \<le> fadd (fmul sat (fl 0.6)) (fmul con (fl 0.4))"
    unfolding fadd_def fmul_def using s k c6 c4
    by (intro fl_nonneg add_nonneg_nonneg mult_nonneg_nonneg) simp_all
  ultimately show ?thesis by simp
qed

lemma pixel_range:
  "0 \<le> rgb_r (pixel pr pg pb) \<and> rgb_r (pixel pr pg pb) \<le> 255 \<and>
   0 \<le> rgb_g (pixel pr pg pb) \<and> rgb_g (pixel pr pg pb) \<le> 255 \<and>
   0 \<le> rgb_b (pixel pr pg pb) \<and> rgb_b (pixel pr pg pb) \<le> 255"
  using byte_range [of pr] byte_range [of pg] byte_range [of pb]
  by (simp only: pixel_def RGB.select_convs) 

lemma pixel_score_nonneg: "0 \<le> score (pixel pr pg pb)"
  using pixel_range [of pr pg pb] by (intro score_nonneg) simp_all

lemma samplePixel_maxScore:
  "maxScore (samplePixel c s) = (if score c > maxScore s then score c else maxScore s)"
  by (simp add: samplePixel_def Let_def)

lemma samplePixel_best:
  "best (samplePixel c s) = (if score c > maxScore s then c else best s)"
  by (simp add: samplePixel_def Let_def)
lemma firstMaxAt_keep:
  assumes "firstMaxAt xs k" and "score x \<le> score (xs ! k)"
  shows "firstMaxAt (xs @ [x]) k"
proof -
  have k: "k < length xs" using assms(1) by (simp add: firstMaxAt_def)
  have a: "\<forall>j < length xs. score (xs ! j) \<le> score (xs ! k)"
    and b: "\<forall>j < k. score (xs ! j) < score (xs ! k)"
    using assms(1) by (simp_all add: firstMaxAt_def)
  have "\<forall>j < length (xs @ [x]). score ((xs @ [x]) ! j) \<le> score ((xs @ [x]) ! k)"
  proof (intro allI impI)
    fix j assume "j < length (xs @ [x])"
    then have "j < length xs \<or> j = length xs" by auto
    then show "score ((xs @ [x]) ! j) \<le> score ((xs @ [x]) ! k)"
      using a k assms(2) by (auto simp: nth_append)
  qed
  moreover have "\<forall>j < k. score ((xs @ [x]) ! j) < score ((xs @ [x]) ! k)"
    using b k by (simp add: nth_append)
  ultimately show ?thesis using k by (simp add: firstMaxAt_def)
qed

lemma firstMaxAt_new:
  assumes "\<forall>j < length xs. score (xs ! j) < score x"
  shows "firstMaxAt (xs @ [x]) (length xs)"
proof -
  have "\<forall>j < length (xs @ [x]). score ((xs @ [x]) ! j) \<le> score ((xs @ [x]) ! length xs)"
  proof (intro allI impI)
    fix j assume "j < length (xs @ [x])"
    then have "j < length xs \<or> j = length xs" by auto
    then show "score ((xs @ [x]) ! j) \<le> score ((xs @ [x]) ! length xs)"
      using assms by (auto simp: nth_append less_imp_le)
  qed
  moreover have "\<forall>j < length xs. score ((xs @ [x]) ! j) < score ((xs @ [x]) ! length xs)"
    using assms by (simp add: nth_append)
  ultimately show ?thesis by (simp add: firstMaxAt_def)
qed

lemma scan_first_max:
  assumes "\<forall>c \<in> set px. 0 \<le> score c"
  shows "(px = [] \<and> maxScore (foldl (\<lambda>s c. samplePixel c s) sampleStart px) = - 1) \<or>
         (\<exists>k. firstMaxAt px k \<and>
              best (foldl (\<lambda>s c. samplePixel c s) sampleStart px) = px ! k \<and>
              maxScore (foldl (\<lambda>s c. samplePixel c s) sampleStart px) = score (px ! k))"
  using assms
proof (induction px rule: rev_induct)
  case Nil
  then show ?case by (simp add: sampleStart_def)
next
  case (snoc x xs)
  define s where "s = foldl (\<lambda>s c. samplePixel c s) sampleStart xs"
  have f: "foldl (\<lambda>s c. samplePixel c s) sampleStart (xs @ [x]) = samplePixel x s"
    by (simp add: s_def)
  have x0: "0 \<le> score x" using snoc.prems by simp
  have ih: "(xs = [] \<and> maxScore s = - 1) \<or>
            (\<exists>k. firstMaxAt xs k \<and> best s = xs ! k \<and> maxScore s = score (xs ! k))"
    using snoc.IH snoc.prems by (simp add: s_def)
  then show ?case
  proof
    assume e: "xs = [] \<and> maxScore s = - 1"
    then have gt: "score x > maxScore s" using x0 by simp
    have "firstMaxAt (xs @ [x]) 0" using e by (simp add: firstMaxAt_def)
    moreover have "best (samplePixel x s) = (xs @ [x]) ! 0"
      using e gt by (simp add: samplePixel_best)
    moreover have "maxScore (samplePixel x s) = score ((xs @ [x]) ! 0)"
      using e gt by (simp add: samplePixel_maxScore)
    ultimately show ?thesis unfolding f by blast
  next
    assume "\<exists>k. firstMaxAt xs k \<and> best s = xs ! k \<and> maxScore s = score (xs ! k)"
    then obtain k where k: "firstMaxAt xs k" and bk: "best s = xs ! k"
      and mk: "maxScore s = score (xs ! k)" by blast
    have kl: "k < length xs" using k by (simp add: firstMaxAt_def)
    show ?thesis
    proof (cases "score x > maxScore s")
      case True
      have "\<forall>j < length xs. score (xs ! j) < score x"
      proof (intro allI impI)
        fix j assume "j < length xs"
        then have "score (xs ! j) \<le> score (xs ! k)" using k by (simp add: firstMaxAt_def)
        then show "score (xs ! j) < score x" using True mk by simp
      qed
      then have "firstMaxAt (xs @ [x]) (length xs)" by (rule firstMaxAt_new)
      moreover have "best (samplePixel x s) = (xs @ [x]) ! length xs"
        using True by (simp add: samplePixel_best)
      moreover have "maxScore (samplePixel x s) = score ((xs @ [x]) ! length xs)"
        using True by (simp add: samplePixel_maxScore)
      ultimately show ?thesis unfolding f by blast
    next
      case False
      then have le: "score x \<le> score (xs ! k)" using mk by simp
      have "firstMaxAt (xs @ [x]) k" by (rule firstMaxAt_keep [OF k le])
      moreover have "best (samplePixel x s) = (xs @ [x]) ! k"
        using False bk kl by (simp add: samplePixel_best nth_append)
      moreover have "maxScore (samplePixel x s) = score ((xs @ [x]) ! k)"
        using False mk kl by (simp add: samplePixel_maxScore nth_append)
      ultimately show ?thesis unfolding f by blast
    qed
  qed
qed

lemma pixelsOf_range:
  "c \<in> set (pixelsOf data) \<Longrightarrow> 0 \<le> score c"
proof (induction data arbitrary: c rule: pixelsOf.induct)
  case (1 pr pg pb pa rest)
  then show ?case using pixel_score_nonneg by auto
qed simp_all

lemma fdiv_pixels: "fdiv (real (4 * 4096)) 4 = 4096"
  by (simp add: fdiv_def fl_eval)

lemma analyzeImageColors_Some:
  assumes "sampled img = Some data"
  shows "analyzeImageColors img =
     Some \<lparr>average =
             \<lparr>rgb_r = fdiv (sumR (foldl (\<lambda>s c. samplePixel c s) sampleStart (pixelsOf data)))
                        (fdiv (real (length data)) 4),
              rgb_g = fdiv (sumG (foldl (\<lambda>s c. samplePixel c s) sampleStart (pixelsOf data)))
                        (fdiv (real (length data)) 4),
              rgb_b = fdiv (sumB (foldl (\<lambda>s c. samplePixel c s) sampleStart (pixelsOf data)))
                        (fdiv (real (length data)) 4)\<rparr>,
           accent = best (foldl (\<lambda>s c. samplePixel c s) sampleStart (pixelsOf data)),
           isDark =
             (getLuminance
                \<lparr>rgb_r = fdiv (sumR (foldl (\<lambda>s c. samplePixel c s) sampleStart (pixelsOf data)))
                           (fdiv (real (length data)) 4),
                 rgb_g = fdiv (sumG (foldl (\<lambda>s c. samplePixel c s) sampleStart (pixelsOf data)))
                           (fdiv (real (length data)) 4),
                 rgb_b = fdiv (sumB (foldl (\<lambda>s c. samplePixel c s) sampleStart (pixelsOf data)))
                           (fdiv (real (length data)) 4)\<rparr> < 115)\<rparr>"
  using assms by (simp add: analyzeImageColors_def Let_def)

text \<open>
  The analysis of a 64 by 64 grid: the sums and the division by 4096 are exact, and the
  accent is the first pixel of greatest computed score.
\<close>

lemma analyze_grid:
  assumes s: "sampled img = Some data" and l: "length data = 4 * 4096"
  shows "\<exists>k < 4096.
     analyzeImageColors img =
       Some \<lparr>average =
               \<lparr>rgb_r = sum_list (map (\<lambda>i. rgb_r (pixelAt data i)) [0..<4096]) / 4096,
                rgb_g = sum_list (map (\<lambda>i. rgb_g (pixelAt data i)) [0..<4096]) / 4096,
                rgb_b = sum_list (map (\<lambda>i. rgb_b (pixelAt data i)) [0..<4096]) / 4096\<rparr>,
             accent = pixelAt data k,
             isDark =
               (getLuminance
                  \<lparr>rgb_r = sum_list (map (\<lambda>i. rgb_r (pixelAt data i)) [0..<4096]) / 4096,
                   rgb_g = sum_list (map (\<lambda>i. rgb_g (pixelAt data i)) [0..<4096]) / 4096,
                   rgb_b = sum_list (map (\<lambda>i. rgb_b (pixelAt data i)) [0..<4096]) / 4096\<rparr>
                < 115)\<rparr> \<and>
     (\<forall>j < 4096. score (pixelAt data j) \<le> score (pixelAt data k)) \<and>
     (\<forall>j < k. score (pixelAt data j) < score (pixelAt data k))"
proof -
  define n :: nat where "n = 4096"
  define px where "px = pixelsOf data"
  define st where "st = foldl (\<lambda>s c. samplePixel c s) sampleStart px"
  have l': "length data = 4 * n" using l by (simp add: n_def)
  have px: "px = map (pixelAt data) [0..<n]"
    unfolding px_def by (rule pixelsOf_pixelAt [OF l'])
  have len: "length px = n" by (simp add: px)
  have nth: "\<And>j. j < n \<Longrightarrow> px ! j = pixelAt data j" by (simp add: px)
  have cnt: "fdiv (real (length data)) 4 = 4096" unfolding l by (rule fdiv_pixels)
  have bound: "0 + 255 * length data < 2 ^ 53" by (simp add: l)
  have z: "sumR sampleStart = real 0" "sumG sampleStart = real 0" "sumB sampleStart = real 0"
    by (simp_all add: sampleStart_def)
  obtain mr where r1: "sumR st = real mr" and r2: "real mr = real 0 + sum_list (map rgb_r px)"
    and r3: "mr \<le> 0 + 255 * length data"
    using foldl_sumR [OF z(1) bound] unfolding st_def px_def by blast
  obtain mg where g1: "sumG st = real mg" and g2: "real mg = real 0 + sum_list (map rgb_g px)"
    and g3: "mg \<le> 0 + 255 * length data"
    using foldl_sumG [OF z(2) bound] unfolding st_def px_def by blast
  obtain mb where b1: "sumB st = real mb" and b2: "real mb = real 0 + sum_list (map rgb_b px)"
    and b3: "mb \<le> 0 + 255 * length data"
    using foldl_sumB [OF z(3) bound] unfolding st_def px_def by blast
  have small: "mr < 2 ^ 53" "mg < 2 ^ 53" "mb < 2 ^ 53"
    using r3 g3 b3 by (simp_all add: l)
  have ar: "fdiv (sumR st) 4096 = sum_list (map (\<lambda>i. rgb_r (pixelAt data i)) [0..<4096]) / 4096"
    using fl_div_4096 [OF small(1)] r2 by (simp add: fdiv_def r1 px comp_def n_def)
  have ag: "fdiv (sumG st) 4096 = sum_list (map (\<lambda>i. rgb_g (pixelAt data i)) [0..<4096]) / 4096"
    using fl_div_4096 [OF small(2)] g2 by (simp add: fdiv_def g1 px comp_def n_def)
  have ab: "fdiv (sumB st) 4096 = sum_list (map (\<lambda>i. rgb_b (pixelAt data i)) [0..<4096]) / 4096"
    using fl_div_4096 [OF small(3)] b2 by (simp add: fdiv_def b1 px comp_def n_def)
  have nn: "\<forall>c \<in> set px. 0 \<le> score c" using pixelsOf_range by (simp add: px_def)
  have ne: "px \<noteq> []" using len by (auto simp: n_def)
  obtain k where k: "firstMaxAt px k" and bk: "best st = px ! k"
    using scan_first_max [OF nn] ne unfolding st_def by blast
  have kn: "k < n" using k len by (simp add: firstMaxAt_def)
  have acc: "best st = pixelAt data k" using bk nth [OF kn] by simp
  have m1: "\<forall>j < 4096. score (pixelAt data j) \<le> score (pixelAt data k)"
  proof (intro allI impI)
    fix j :: nat assume "j < 4096"
    then have j: "j < n" by (simp add: n_def)
    have "score (px ! j) \<le> score (px ! k)" using k j len by (simp add: firstMaxAt_def)
    then show "score (pixelAt data j) \<le> score (pixelAt data k)"
      using nth [OF j] nth [OF kn] by simp
  qed
  have m2: "\<forall>j < k. score (pixelAt data j) < score (pixelAt data k)"
  proof (intro allI impI)
    fix j assume j: "j < k"
    then have jn: "j < n" using kn by simp
    have "score (px ! j) < score (px ! k)" using k j by (simp add: firstMaxAt_def)
    then show "score (pixelAt data j) < score (pixelAt data k)"
      using nth [OF jn] nth [OF kn] by simp
  qed
  have t: "analyzeImageColors img =
       Some \<lparr>average =
               \<lparr>rgb_r = sum_list (map (\<lambda>i. rgb_r (pixelAt data i)) [0..<4096]) / 4096,
                rgb_g = sum_list (map (\<lambda>i. rgb_g (pixelAt data i)) [0..<4096]) / 4096,
                rgb_b = sum_list (map (\<lambda>i. rgb_b (pixelAt data i)) [0..<4096]) / 4096\<rparr>,
             accent = pixelAt data k,
             isDark =
               (getLuminance
                  \<lparr>rgb_r = sum_list (map (\<lambda>i. rgb_r (pixelAt data i)) [0..<4096]) / 4096,
                   rgb_g = sum_list (map (\<lambda>i. rgb_g (pixelAt data i)) [0..<4096]) / 4096,
                   rgb_b = sum_list (map (\<lambda>i. rgb_b (pixelAt data i)) [0..<4096]) / 4096\<rparr>
                < 115)\<rparr>"
    unfolding analyzeImageColors_Some [OF s] cnt px_def [symmetric] st_def [symmetric] ar ag ab acc
    by (rule refl)
  have "k < 4096" using kn by (simp add: n_def)
  then show ?thesis using t m1 m2 by blast
qed

lemma pixelsOf_uniform:
  "pixelsOf (concat (replicate n [pr, pg, pb, pa]) @ rest) = replicate n (pixel pr pg pb) @ pixelsOf rest"
  by (induction n) simp_all

lemma length_uniform: "length (concat (replicate n [pr, pg, pb, pa])) = 4 * n"
  by (induction n) simp_all

lemma pixelAt_nth:
  assumes "length data = 4 * n" and "j < n"
  shows "pixelAt data j = pixelsOf data ! j"
proof -
  have "(map (pixelAt data) [0..<n]) ! j = pixelAt data j"
    using assms(2) by (simp only: nth_map_upt [of j n 0] diff_zero add_0)
  then show ?thesis by (simp only: pixelsOf_pixelAt [OF assms(1)])
qed

lemma sum_pixelAt:
  assumes "length data = 4 * n"
  shows "sum_list (map (\<lambda>i. f (pixelAt data i)) [0..<n]) = sum_list (map f (pixelsOf data))"
  by (simp only: pixelsOf_pixelAt [OF assms] map_map comp_def)

text \<open>The analysis of a grid of one colour: the average and the accent are that colour.\<close>

lemma analyze_flat:
  assumes s: "sampled img = Some (concat (replicate 4096 [pr, pg, pb, pa]))"
  shows "analyzeImageColors img =
     Some \<lparr>average = pixel pr pg pb, accent = pixel pr pg pb,
           isDark = (getLuminance (pixel pr pg pb) < 115)\<rparr>"
proof -
  define data where "data = concat (replicate 4096 [pr, pg, pb, pa])"
  define c where "c = pixel pr pg pb"
  have l: "length data = 4 * 4096" unfolding data_def by (rule length_uniform)
  have px: "pixelsOf data = replicate 4096 c"
    using pixelsOf_uniform [of 4096 pr pg pb pa "[]"] by (simp add: data_def c_def)
  have at: "pixelAt data j = c" if "j < 4096" for j
    using pixelAt_nth [OF l that] that by (simp add: px)
  have sums: "sum_list (map (\<lambda>i. f (pixelAt data i)) [0..<4096]) / 4096 = f c" for f :: "RGB \<Rightarrow> real"
    unfolding sum_pixelAt [OF l] px by (simp add: sum_list_replicate)
  obtain k where k: "k < 4096" and t: "analyzeImageColors img =
       Some \<lparr>average =
               \<lparr>rgb_r = sum_list (map (\<lambda>i. rgb_r (pixelAt data i)) [0..<4096]) / 4096,
                rgb_g = sum_list (map (\<lambda>i. rgb_g (pixelAt data i)) [0..<4096]) / 4096,
                rgb_b = sum_list (map (\<lambda>i. rgb_b (pixelAt data i)) [0..<4096]) / 4096\<rparr>,
             accent = pixelAt data k,
             isDark =
               (getLuminance
                  \<lparr>rgb_r = sum_list (map (\<lambda>i. rgb_r (pixelAt data i)) [0..<4096]) / 4096,
                   rgb_g = sum_list (map (\<lambda>i. rgb_g (pixelAt data i)) [0..<4096]) / 4096,
                   rgb_b = sum_list (map (\<lambda>i. rgb_b (pixelAt data i)) [0..<4096]) / 4096\<rparr>
                < 115)\<rparr>"
    using analyze_grid [OF s [folded data_def] l] by blast
  have e: "\<lparr>rgb_r = rgb_r c, rgb_g = rgb_g c, rgb_b = rgb_b c\<rparr> = c" by simp
  have "analyzeImageColors img =
          Some \<lparr>average = c, accent = c, isDark = (getLuminance c < 115)\<rparr>"
    using t by (simp only: sums at [OF k] e)
  then show ?thesis by (simp only: c_def)
qed

lemma sampled_flat: "sampled (flatImage pr pg pb) = Some (concat (replicate 4096 [pr, pg, pb, 255]))"
  by (simp add: flatImage_def)

lemma sampled_grey: "sampled (greyImage v) = Some (concat (replicate 4096 [v, v, v, 255]))"
  by (simp add: greyImage_def)

lemma sum_nat:
  assumes "\<forall>i < n. \<exists>k \<le> (255 :: nat). f i = real k"
  shows "\<exists>m \<le> 255 * n. sum_list (map f [0..<n]) = real m"
  using assms
proof (induction n)
  case 0
  then show ?case by simp
next
  case (Suc n)
  obtain m where m: "m \<le> 255 * n" "sum_list (map f [0..<n]) = real m"
    using Suc.IH Suc.prems by auto
  obtain k where k: "k \<le> 255" "f n = real k" using Suc.prems by auto
  have "m + k \<le> 255 * Suc n" using m(1) k(1) by simp
  moreover have "sum_list (map f [0..<Suc n]) = real (m + k)" by (simp add: m(2) k(2))
  ultimately show ?case by blast
qed

lemma channel_nat:
  "\<exists>k \<le> (255 :: nat). rgb_r (pixelAt data i) = real k"
  "\<exists>k \<le> (255 :: nat). rgb_g (pixelAt data i) = real k"
  "\<exists>k \<le> (255 :: nat). rgb_b (pixelAt data i) = real k"
proof -
  show "\<exists>k \<le> (255 :: nat). rgb_r (pixelAt data i) = real k"
    using byte_nat [of "data ! (4 * i)"]
    by (intro exI [of _ "unat (data ! (4 * i))"])
       (simp only: pixelAt_def pixel_def RGB.select_convs simp_thms)
  show "\<exists>k \<le> (255 :: nat). rgb_g (pixelAt data i) = real k"
    using byte_nat [of "data ! (4 * i + 1)"]
    by (intro exI [of _ "unat (data ! (4 * i + 1))"])
       (simp only: pixelAt_def pixel_def RGB.select_convs simp_thms)
  show "\<exists>k \<le> (255 :: nat). rgb_b (pixelAt data i) = real k"
    using byte_nat [of "data ! (4 * i + 2)"]
    by (intro exI [of _ "unat (data ! (4 * i + 2))"])
       (simp only: pixelAt_def pixel_def RGB.select_convs simp_thms)
qed

lemma mean_4096:
  assumes "m \<le> 255 * 4096"
  shows "0 \<le> real m / 4096" "real m / 4096 \<le> 255" "real m / 4096 = 0 \<or> 1 / 4096 \<le> real m / 4096"
proof -
  show "0 \<le> real m / 4096" by simp
  have "real m \<le> real (255 * 4096)" using assms by (simp only: of_nat_le_iff)
  then show "real m / 4096 \<le> 255" by simp
  show "real m / 4096 = 0 \<or> 1 / 4096 \<le> real m / 4096"
  proof (cases "m = 0")
    case True
    then show ?thesis by simp
  next
    case False
    then have "1 \<le> real m" by simp
    then show ?thesis by (simp add: divide_right_mono)
  qed
qed

text \<open>
  The exact luminance of an average of 4096 pixels is a multiple of \<open>1 / 4096000\<close>, and
  the computed one is within \<open>2 ^ - 42\<close> of it: they are on the same side of 115 unless the
  exact one is 115.
\<close>

lemma luminance_side:
  assumes "mr \<le> 255 * 4096" and "mg \<le> 255 * 4096" and "mb \<le> 255 * 4096"
    and "0.299 * (real mr / 4096) + 0.587 * (real mg / 4096) + 0.114 * (real mb / 4096) \<noteq> 115"
  shows "getLuminance \<lparr>rgb_r = real mr / 4096, rgb_g = real mg / 4096, rgb_b = real mb / 4096\<rparr> < 115
         \<longleftrightarrow>
         0.299 * (real mr / 4096) + 0.587 * (real mg / 4096) + 0.114 * (real mb / 4096) < 115"
proof -
  define N where "N = 299 * mr + 587 * mg + 114 * mb"
  define L where
    "L = 0.299 * (real mr / 4096) + 0.587 * (real mg / 4096) + 0.114 * (real mb / 4096)"
  define C where
    "C = getLuminance
           \<lparr>rgb_r = real mr / 4096, rgb_g = real mg / 4096, rgb_b = real mb / 4096\<rparr>"
  have L: "L = real N / 4096000" by (simp add: L_def N_def field_simps)
  have err: "\<bar>C - L\<bar> \<le> 1 / 2 ^ 42"
    unfolding C_def L_def
    by (rule luminance_error [OF mean_4096 [OF assms(1)] mean_4096 [OF assms(2)]
          mean_4096 [OF assms(3)]])
  have ne: "N \<noteq> 471040000"
  proof
    assume "N = 471040000"
    then have "L = 115" by (simp add: L)
    then show False using assms(4) by (simp add: L_def)
  qed
  have e1: "C - L \<le> 1 / 2 ^ 42" and e2: "L - C \<le> 1 / 2 ^ 42" using err by linarith+
  have "C < 115 \<longleftrightarrow> L < 115"
  proof (cases "N < 471040000")
    case True
    then have "N + 1 \<le> 471040000" by simp
    then have "real (N + 1) \<le> real 471040000" by (simp only: of_nat_le_iff)
    then have b: "L \<le> 115 - 1 / 4096000" by (simp add: L field_simps)
    have "L < 115" using b by simp
    moreover have "C < 115" using b e1 by simp
    ultimately show ?thesis by simp
  next
    case False
    then have "471040000 + 1 \<le> N" using ne by simp
    then have "real (471040000 + 1) \<le> real N" by (simp only: of_nat_le_iff)
    then have b: "115 + 1 / 4096000 \<le> L" by (simp add: L field_simps)
    have "\<not> L < 115" using b by simp
    moreover have "\<not> C < 115" using b e2 by simp
    ultimately show ?thesis by simp
  qed
  then show ?thesis by (simp only: C_def L_def)
qed

lemma isDark_exact:
  assumes s: "sampled img = Some data" and l: "length data = 4 * 4096"
    and t: "analyzeImageColors img = Some tone"
    and ne: "0.299 * rgb_r (average tone) + 0.587 * rgb_g (average tone) +
             0.114 * rgb_b (average tone) \<noteq> 115"
  shows "isDark tone \<longleftrightarrow>
         0.299 * rgb_r (average tone) + 0.587 * rgb_g (average tone) +
         0.114 * rgb_b (average tone) < 115"
proof -
  obtain mr where mr: "mr \<le> 255 * 4096"
    "sum_list (map (\<lambda>i. rgb_r (pixelAt data i)) [0..<4096]) = real mr"
    using sum_nat [of 4096 "\<lambda>i. rgb_r (pixelAt data i)"] channel_nat(1) by blast
  obtain mg where mg: "mg \<le> 255 * 4096"
    "sum_list (map (\<lambda>i. rgb_g (pixelAt data i)) [0..<4096]) = real mg"
    using sum_nat [of 4096 "\<lambda>i. rgb_g (pixelAt data i)"] channel_nat(2) by blast
  obtain mb where mb: "mb \<le> 255 * 4096"
    "sum_list (map (\<lambda>i. rgb_b (pixelAt data i)) [0..<4096]) = real mb"
    using sum_nat [of 4096 "\<lambda>i. rgb_b (pixelAt data i)"] channel_nat(3) by blast
  obtain k where "analyzeImageColors img =
       Some \<lparr>average =
               \<lparr>rgb_r = sum_list (map (\<lambda>i. rgb_r (pixelAt data i)) [0..<4096]) / 4096,
                rgb_g = sum_list (map (\<lambda>i. rgb_g (pixelAt data i)) [0..<4096]) / 4096,
                rgb_b = sum_list (map (\<lambda>i. rgb_b (pixelAt data i)) [0..<4096]) / 4096\<rparr>,
             accent = pixelAt data k,
             isDark =
               (getLuminance
                  \<lparr>rgb_r = sum_list (map (\<lambda>i. rgb_r (pixelAt data i)) [0..<4096]) / 4096,
                   rgb_g = sum_list (map (\<lambda>i. rgb_g (pixelAt data i)) [0..<4096]) / 4096,
                   rgb_b = sum_list (map (\<lambda>i. rgb_b (pixelAt data i)) [0..<4096]) / 4096\<rparr>
                < 115)\<rparr>"
    using analyze_grid [OF s l] by blast
  then have tone: "tone =
       \<lparr>average = \<lparr>rgb_r = real mr / 4096, rgb_g = real mg / 4096, rgb_b = real mb / 4096\<rparr>,
        accent = pixelAt data k,
        isDark = (getLuminance
                    \<lparr>rgb_r = real mr / 4096, rgb_g = real mg / 4096, rgb_b = real mb / 4096\<rparr>
                  < 115)\<rparr>"
    using t by (simp only: mr(2) mg(2) mb(2)) simp
  have ne': "0.299 * (real mr / 4096) + 0.587 * (real mg / 4096) + 0.114 * (real mb / 4096) \<noteq> 115"
    using ne by (simp add: tone)
  show ?thesis
    using luminance_side [OF mr(1) mg(1) mb(1) ne'] by (simp add: tone)
qed

text \<open>
  Claim C6. Whenever the analysis returns a tone, its \<open>isDark\<close> holds exactly when the
  luminance of its average, as the code computes it in double arithmetic
  (\<open>0.299 * r + 0.587 * g + 0.114 * b\<close>, each literal, product and sum rounded), is below
  115; so an average whose computed luminance is exactly 115 is not dark. For the data
  of a 64 by 64 grid the computed luminance is on the same side of 115 as the exact
  \<open>0.299 r + 0.587 g + 0.114 b\<close> unless that is 115: so whenever the exact luminance of the
  average is not 115, \<open>isDark\<close> holds exactly when the exact luminance is below 115.
\<close>

theorem isDark_threshold:
  assumes "analyzeImageColors img = Some tone"
  shows "(isDark tone \<longleftrightarrow>
          fadd (fadd (fmul (fl 0.299) (rgb_r (average tone))) (fmul (fl 0.587) (rgb_g (average tone))))
               (fmul (fl 0.114) (rgb_b (average tone))) < 115) \<and>
         (\<forall>data. sampled img = Some data \<and> length data = 4 * 4096 \<and>
                 0.299 * rgb_r (average tone) + 0.587 * rgb_g (average tone) +
                 0.114 * rgb_b (average tone) \<noteq> 115 \<longrightarrow>
                 (isDark tone \<longleftrightarrow>
                  0.299 * rgb_r (average tone) + 0.587 * rgb_g (average tone) +
                  0.114 * rgb_b (average tone) < 115))"
proof -
  obtain data where d: "sampled img = Some data"
    using assms by (cases "sampled img") (simp_all add: analyzeImageColors_def)
  have "isDark tone = (getLuminance (average tone) < 115)"
    using assms unfolding analyzeImageColors_Some [OF d] by auto
  then have a: "isDark tone \<longleftrightarrow>
          fadd (fadd (fmul (fl 0.299) (rgb_r (average tone))) (fmul (fl 0.587) (rgb_g (average tone))))
               (fmul (fl 0.114) (rgb_b (average tone))) < 115"
    by (simp only: getLuminance_def)
  have b: "\<forall>data. sampled img = Some data \<and> length data = 4 * 4096 \<and>
                 0.299 * rgb_r (average tone) + 0.587 * rgb_g (average tone) +
                 0.114 * rgb_b (average tone) \<noteq> 115 \<longrightarrow>
                 (isDark tone \<longleftrightarrow>
                  0.299 * rgb_r (average tone) + 0.587 * rgb_g (average tone) +
                  0.114 * rgb_b (average tone) < 115)"
    using isDark_exact [OF _ _ assms] by blast
  show ?thesis by (rule conjI [OF a b])
qed

theorem isDark_threshold_witness:
  "analyzeImageColors (flatImage 3 167 141) =
     Some \<lparr>average = \<lparr>rgb_r = 3, rgb_g = 167, rgb_b = 141\<rparr>,
           accent = \<lparr>rgb_r = 3, rgb_g = 167, rgb_b = 141\<rparr>,
           isDark = False\<rparr> \<and>
   fadd (fadd (fmul (fl 0.299) 3) (fmul (fl 0.587) 167)) (fmul (fl 0.114) 141) = 115 \<and>
   analyzeImageColors (greyImage 114) =
     Some \<lparr>average = \<lparr>rgb_r = 114, rgb_g = 114, rgb_b = 114\<rparr>,
           accent = \<lparr>rgb_r = 114, rgb_g = 114, rgb_b = 114\<rparr>,
           isDark = True\<rparr> \<and>
   fadd (fadd (fmul (fl 0.299) 114) (fmul (fl 0.587) 114)) (fmul (fl 0.114) 114) = 114 - 1 / 2 ^ 46 \<and>
   sampled (greyImage 114) = Some (concat (replicate 4096 [114, 114, 114, 255])) \<and>
   length (concat (replicate 4096 [114, 114, 114, 255 :: 8 word])) = 4 * 4096 \<and>
   0.299 * 114 + 0.587 * 114 + 0.114 * 114 = (114 :: real)"
proof -
  define teal where "teal = \<lparr>rgb_r = 3, rgb_g = 167, rgb_b = 141 :: real\<rparr>"
  define grey where "grey = \<lparr>rgb_r = 114, rgb_g = 114, rgb_b = 114 :: real\<rparr>"
  define tone where "tone = \<lparr>average = grey, accent = grey, isDark = (getLuminance grey < 115)\<rparr>"
  have p1: "pixel 3 167 141 = teal" and p2: "pixel 114 114 114 = grey"
    by (simp_all add: pixel_def teal_def grey_def)
  have l1: "getLuminance teal = 115" unfolding teal_def by (rule luminance_teal)
  have l2: "getLuminance grey = 114 - 1 / 2 ^ 46" unfolding grey_def by (rule luminance_114)
  have t1: "analyzeImageColors (flatImage 3 167 141) =
              Some \<lparr>average = teal, accent = teal, isDark = (getLuminance teal < 115)\<rparr>"
    using analyze_flat [OF sampled_flat, of 3 167 141] by (simp only: p1)
  have t2: "analyzeImageColors (greyImage 114) = Some tone"
    using analyze_flat [OF sampled_grey, of 114] by (simp only: p2 tone_def)
  have d1: "\<not> isDark \<lparr>average = teal, accent = teal, isDark = (getLuminance teal < 115)\<rparr>"
    using isDark_threshold [OF t1, THEN conjunct1] l1 by (simp add: getLuminance_def)
  have len: "length (concat (replicate 4096 [114, 114, 114, 255 :: 8 word])) = 4 * 4096"
    by (rule length_uniform)
  have ex: "0.299 * 114 + 0.587 * 114 + 0.114 * 114 = (114 :: real)" by simp
  have ne: "0.299 * rgb_r (average tone) + 0.587 * rgb_g (average tone) +
            0.114 * rgb_b (average tone) \<noteq> 115"
    by (simp add: tone_def grey_def)
  have "isDark tone \<longleftrightarrow>
        0.299 * rgb_r (average tone) + 0.587 * rgb_g (average tone) +
        0.114 * rgb_b (average tone) < 115"
    using isDark_threshold [OF t2, THEN conjunct2, THEN spec,
        of "concat (replicate 4096 [114, 114, 114, 255])"] sampled_grey [of 114] len ne
    by blast
  then have d2: "isDark tone" by (simp add: tone_def grey_def)
  have e1: "fadd (fadd (fmul (fl 0.299) 3) (fmul (fl 0.587) 167)) (fmul (fl 0.114) 141) = 115"
    using l1 by (simp add: getLuminance_def teal_def)
  have e2: "fadd (fadd (fmul (fl 0.299) 114) (fmul (fl 0.587) 114)) (fmul (fl 0.114) 114) =
            114 - 1 / 2 ^ 46"
    using l2 by (simp add: getLuminance_def grey_def)
  have "analyzeImageColors (flatImage 3 167 141) =
          Some \<lparr>average = teal, accent = teal, isDark = False\<rparr>"
    using t1 d1 by simp
  moreover have "analyzeImageColors (greyImage 114) =
          Some \<lparr>average = grey, accent = grey, isDark = True\<rparr>"
    using t2 d2 by (simp add: tone_def)
  ultimately show ?thesis
    using e1 e2 sampled_grey [of 114] len ex unfolding teal_def grey_def by simp
qed

text \<open>
  Against claim C6 as it is worded, over exact arithmetic: the grid of the single grey
  115 has the average \<open>(115, 115, 115)\<close>, whose luminance \<open>0.299 r + 0.587 g + 0.114 b\<close> is
  exactly 115, and the analysis classifies it as dark, the luminance it computes being
  \<open>115 - 2 ^ - 46\<close>.
\<close>

theorem isDark_boundary_counterexample:
  "analyzeImageColors (greyImage 115) =
     Some \<lparr>average = \<lparr>rgb_r = 115, rgb_g = 115, rgb_b = 115\<rparr>,
           accent = \<lparr>rgb_r = 115, rgb_g = 115, rgb_b = 115\<rparr>,
           isDark = True\<rparr> \<and>
   0.299 * 115 + 0.587 * 115 + 0.114 * 115 = (115 :: real) \<and>
   exactLuminance \<lparr>rgb_r = 115, rgb_g = 115, rgb_b = 115\<rparr> = 115 \<and>
   getLuminance \<lparr>rgb_r = 115, rgb_g = 115, rgb_b = 115\<rparr> = 115 - 1 / 2 ^ 46"
proof -
  define grey where "grey = \<lparr>rgb_r = 115, rgb_g = 115, rgb_b = 115 :: real\<rparr>"
  have p: "pixel 115 115 115 = grey" by (simp add: pixel_def grey_def)
  have lum: "getLuminance grey = 115 - 1 / 2 ^ 46" unfolding grey_def by (rule luminance_115)
  have "analyzeImageColors (greyImage 115) =
          Some \<lparr>average = grey, accent = grey, isDark = (getLuminance grey < 115)\<rparr>"
    using analyze_flat [OF sampled_grey, of 115] by (simp only: p)
  then have "analyzeImageColors (greyImage 115) =
          Some \<lparr>average = grey, accent = grey, isDark = True\<rparr>"
    by (simp add: lum)
  moreover have "exactLuminance grey = 115" by (simp add: exactLuminance_def grey_def)
  ultimately show ?thesis using lum unfolding grey_def by simp
qed

text \<open>
  Claim C7. For the sampled data of a 64 by 64 grid (\<open>4 * 4096\<close> bytes), the analysis
  returns a tone whose average channels are the arithmetic means of the channels of the
  4096 pixels and lie between 0 and 255, and whose accent is the pixel at the first
  index \<open>k\<close> where the score, as the code computes it in double arithmetic
  (\<open>saturation * 0.6 + contrastToMid * 0.4\<close>, each operation rounded), is greatest: no
  pixel has a greater computed score, and every earlier pixel has a strictly smaller
  one.
\<close>

theorem analyzeImageColors_average_accent:
  assumes s: "sampled img = Some data" and l: "length data = 4 * 4096"
  shows "\<exists>tone k. analyzeImageColors img = Some tone \<and>
     rgb_r (average tone) = sum_list (map (\<lambda>i. rgb_r (pixelAt data i)) [0..<4096]) / 4096 \<and>
     rgb_g (average tone) = sum_list (map (\<lambda>i. rgb_g (pixelAt data i)) [0..<4096]) / 4096 \<and>
     rgb_b (average tone) = sum_list (map (\<lambda>i. rgb_b (pixelAt data i)) [0..<4096]) / 4096 \<and>
     0 \<le> rgb_r (average tone) \<and> rgb_r (average tone) \<le> 255 \<and>
     0 \<le> rgb_g (average tone) \<and> rgb_g (average tone) \<le> 255 \<and>
     0 \<le> rgb_b (average tone) \<and> rgb_b (average tone) \<le> 255 \<and>
     k < 4096 \<and> accent tone = pixelAt data k \<and>
     (\<forall>j < 4096. score (pixelAt data j) \<le> score (pixelAt data k)) \<and>
     (\<forall>j < k. score (pixelAt data j) < score (pixelAt data k))"
proof -
  obtain k tone where k: "k < 4096" and t: "analyzeImageColors img = Some tone"
    and tone: "tone =
       \<lparr>average =
               \<lparr>rgb_r = sum_list (map (\<lambda>i. rgb_r (pixelAt data i)) [0..<4096]) / 4096,
                rgb_g = sum_list (map (\<lambda>i. rgb_g (pixelAt data i)) [0..<4096]) / 4096,
                rgb_b = sum_list (map (\<lambda>i. rgb_b (pixelAt data i)) [0..<4096]) / 4096\<rparr>,
             accent = pixelAt data k,
             isDark =
               (getLuminance
                  \<lparr>rgb_r = sum_list (map (\<lambda>i. rgb_r (pixelAt data i)) [0..<4096]) / 4096,
                   rgb_g = sum_list (map (\<lambda>i. rgb_g (pixelAt data i)) [0..<4096]) / 4096,
                   rgb_b = sum_list (map (\<lambda>i. rgb_b (pixelAt data i)) [0..<4096]) / 4096\<rparr>
                < 115)\<rparr>"
    and m1: "\<forall>j < 4096. score (pixelAt data j) \<le> score (pixelAt data k)"
    and m2: "\<forall>j < k. score (pixelAt data j) < score (pixelAt data k)"
    using analyze_grid [OF s l] by blast
  have r: "rgb_r (average tone) = sum_list (map (\<lambda>i. rgb_r (pixelAt data i)) [0..<4096]) / 4096"
    and g: "rgb_g (average tone) = sum_list (map (\<lambda>i. rgb_g (pixelAt data i)) [0..<4096]) / 4096"
    and b: "rgb_b (average tone) = sum_list (map (\<lambda>i. rgb_b (pixelAt data i)) [0..<4096]) / 4096"
    and acc: "accent tone = pixelAt data k"
    by (simp_all add: tone)
  have rng: "\<forall>i < 4096. 0 \<le> rgb_r (pixelAt data i) \<and> rgb_r (pixelAt data i) \<le> 255"
    "\<forall>i < 4096. 0 \<le> rgb_g (pixelAt data i) \<and> rgb_g (pixelAt data i) \<le> 255"
    "\<forall>i < 4096. 0 \<le> rgb_b (pixelAt data i) \<and> rgb_b (pixelAt data i) \<le> 255"
    using pixel_range by (simp_all add: pixelAt_def)
  have pos: "0 < (4096 :: nat)" by simp
  have rr: "0 \<le> rgb_r (average tone) \<and> rgb_r (average tone) \<le> 255"
    unfolding r using mean_range [OF rng(1) pos] by simp
  have gr: "0 \<le> rgb_g (average tone) \<and> rgb_g (average tone) \<le> 255"
    unfolding g using mean_range [OF rng(2) pos] by simp
  have br: "0 \<le> rgb_b (average tone) \<and> rgb_b (average tone) \<le> 255"
    unfolding b using mean_range [OF rng(3) pos] by simp
  show ?thesis using t r g b rr gr br k acc m1 m2 by blast
qed

lemma tie_pixels:
  assumes l: "length data = 4 * 4096" and px: "pixelsOf data = p0 # p1 # replicate 4094 p2"
  shows "pixelAt data 0 = p0" and "pixelAt data 1 = p1"
    and "\<And>j. 2 \<le> j \<Longrightarrow> j < 4096 \<Longrightarrow> pixelAt data j = p2"
proof -
  show "pixelAt data 0 = p0" using pixelAt_nth [OF l, of 0] by (simp add: px)
  show "pixelAt data 1 = p1" using pixelAt_nth [OF l, of 1] by (simp add: px)
  fix j :: nat assume a: "2 \<le> j" and b: "j < 4096"
  obtain i where i: "j = Suc (Suc i)" using a by (metis add_2_eq_Suc le_Suc_ex)
  have "pixelAt data j = (p0 # p1 # replicate 4094 p2) ! j"
    using pixelAt_nth [OF l b] by (simp only: px)
  then show "pixelAt data j = p2" using b by (simp add: i)
qed

theorem analyzeImageColors_average_accent_witness:
  "\<exists>tone. analyzeImageColors tieImage = Some tone \<and>
     accent tone = \<lparr>rgb_r = 255, rgb_g = 255, rgb_b = 255\<rparr> \<and>
     rgb_r (average tone) = 4350 / 4096 \<and>
     score \<lparr>rgb_r = 255, rgb_g = 255, rgb_b = 255\<rparr> = score \<lparr>rgb_r = 1, rgb_g = 1, rgb_b = 1\<rparr>"
proof -
  define white where "white = \<lparr>rgb_r = 255, rgb_g = 255, rgb_b = 255 :: real\<rparr>"
  define dim where "dim = \<lparr>rgb_r = 1, rgb_g = 1, rgb_b = 1 :: real\<rparr>"
  define data :: "8 word list" where
    "data = [255, 255, 255, 255] @ concat (replicate 4095 [1, 1, 1, 255])"
  have s: "sampled tieImage = Some data" by (simp add: tieImage_def data_def)
  have l: "length data = 4 * 4096" by (simp add: data_def length_uniform)
  have pw: "pixel 255 255 255 = white" and pd: "pixel 1 1 1 = dim"
    by (simp_all add: pixel_def white_def dim_def)
  have "pixelsOf data = white # replicate 4095 dim"
    using pixelsOf_uniform [of 4095 1 1 1 255 "[]"] by (simp add: data_def pw pd)
  moreover have "replicate 4095 dim = dim # replicate 4094 dim"
    using replicate_Suc [of 4094 dim] by simp
  ultimately have px: "pixelsOf data = white # dim # replicate 4094 dim" by simp
  note at = tie_pixels [OF l px]
  have rest: "pixelAt data j = dim" if "1 \<le> j" "j < 4096" for j
    using that at(2) at(3) [of j] by (cases "j = 1") simp_all
  obtain tone k where t: "analyzeImageColors tieImage = Some tone"
    and r: "rgb_r (average tone) = sum_list (map (\<lambda>i. rgb_r (pixelAt data i)) [0..<4096]) / 4096"
    and k: "k < 4096" and acc: "accent tone = pixelAt data k"
    and first: "\<forall>j < k. score (pixelAt data j) < score (pixelAt data k)"
    using analyzeImageColors_average_accent [OF s l] by blast
  have tie: "score white = score dim"
    unfolding white_def dim_def by (simp only: score_white score_1)
  have k0: "k = 0"
  proof (rule ccontr)
    assume "k \<noteq> 0"
    then have "1 \<le> k" by simp
    then have "pixelAt data k = dim" using k by (rule rest)
    moreover have "score (pixelAt data 0) < score (pixelAt data k)"
      using first \<open>k \<noteq> 0\<close> by simp
    ultimately show False using at(1) tie by simp
  qed
  have a: "accent tone = white" using acc k0 at(1) by simp
  have "sum_list (map (\<lambda>i. rgb_r (pixelAt data i)) [0..<4096]) = sum_list (map rgb_r (pixelsOf data))"
    by (rule sum_pixelAt [OF l])
  also have "\<dots> = 255 + (1 + 4094)"
    unfolding px by (simp add: sum_list_replicate white_def dim_def)
  finally have b: "rgb_r (average tone) = 4350 / 4096" using r by simp
  show ?thesis using t a b tie unfolding white_def dim_def by blast
qed

text \<open>
  Against claim C7 as it is worded, with the score \<open>0.6 saturation + 0.4 contrastToMid\<close>
  in exact arithmetic: in the grid that starts with the greys 129 and 127 and goes on
  with the grey 128, the first two pixels have the same exact score, \<open>1 / 320\<close>, which is
  the greatest, so the first of them should be the accent; the scores the code computes
  are \<open>0.003125\<close> for the grey 129 and a greater one for the grey 127, which it returns.
\<close>

theorem accent_rounding_counterexample:
  "\<exists>tone. analyzeImageColors driftImage = Some tone \<and>
     accent tone = \<lparr>rgb_r = 127, rgb_g = 127, rgb_b = 127\<rparr> \<and>
     exactScore \<lparr>rgb_r = 129, rgb_g = 129, rgb_b = 129\<rparr> = 1 / 320 \<and>
     exactScore \<lparr>rgb_r = 127, rgb_g = 127, rgb_b = 127\<rparr> = 1 / 320 \<and>
     exactScore \<lparr>rgb_r = 128, rgb_g = 128, rgb_b = 128\<rparr> = 0 \<and>
     score \<lparr>rgb_r = 129, rgb_g = 129, rgb_b = 129\<rparr> < score \<lparr>rgb_r = 127, rgb_g = 127, rgb_b = 127\<rparr>"
proof -
  define hi where "hi = \<lparr>rgb_r = 129, rgb_g = 129, rgb_b = 129 :: real\<rparr>"
  define lo where "lo = \<lparr>rgb_r = 127, rgb_g = 127, rgb_b = 127 :: real\<rparr>"
  define mid where "mid = \<lparr>rgb_r = 128, rgb_g = 128, rgb_b = 128 :: real\<rparr>"
  define data :: "8 word list" where
    "data = [129, 129, 129, 255, 127, 127, 127, 255] @ concat (replicate 4094 [128, 128, 128, 255])"
  have s: "sampled driftImage = Some data" by (simp add: driftImage_def data_def)
  have l: "length data = 4 * 4096" by (simp add: data_def length_uniform)
  have ph: "pixel 129 129 129 = hi" and pl: "pixel 127 127 127 = lo"
    and pm: "pixel 128 128 128 = mid"
    by (simp_all add: pixel_def hi_def lo_def mid_def)
  have px: "pixelsOf data = hi # lo # replicate 4094 mid"
    using pixelsOf_uniform [of 4094 128 128 128 255 "[]"] by (simp add: data_def ph pl pm)
  note at = tie_pixels [OF l px]
  have sh: "score hi = 3602879701896397 / 1152921504606846976"
    unfolding hi_def by (rule score_129)
  have sl: "score lo = 14073748835533 / 4503599627370496"
    unfolding lo_def by (rule score_127)
  have sm: "score mid = 3602879701896397 / 81129638414606681695789005144064"
    unfolding mid_def by (rule score_128)
  have hl: "score hi < score lo" unfolding sh sl by simp
  have ml: "score mid < score hi" unfolding sh sm by simp
  obtain k where k: "k < 4096" and t: "analyzeImageColors driftImage =
       Some \<lparr>average =
               \<lparr>rgb_r = sum_list (map (\<lambda>i. rgb_r (pixelAt data i)) [0..<4096]) / 4096,
                rgb_g = sum_list (map (\<lambda>i. rgb_g (pixelAt data i)) [0..<4096]) / 4096,
                rgb_b = sum_list (map (\<lambda>i. rgb_b (pixelAt data i)) [0..<4096]) / 4096\<rparr>,
             accent = pixelAt data k,
             isDark =
               (getLuminance
                  \<lparr>rgb_r = sum_list (map (\<lambda>i. rgb_r (pixelAt data i)) [0..<4096]) / 4096,
                   rgb_g = sum_list (map (\<lambda>i. rgb_g (pixelAt data i)) [0..<4096]) / 4096,
                   rgb_b = sum_list (map (\<lambda>i. rgb_b (pixelAt data i)) [0..<4096]) / 4096\<rparr>
                < 115)\<rparr>"
    and m1: "\<forall>j < 4096. score (pixelAt data j) \<le> score (pixelAt data k)"
    and m2: "\<forall>j < k. score (pixelAt data j) < score (pixelAt data k)"
    using analyze_grid [OF s l] by blast
  have k1: "k = 1"
  proof (rule ccontr)
    assume n1: "k \<noteq> 1"
    show False
    proof (cases "k = 0")
      case True
      have "score (pixelAt data 1) \<le> score (pixelAt data k)" using m1 by simp
      then show False using True at(1) at(2) hl by simp
    next
      case False
      then have "2 \<le> k" using n1 by simp
      then have "pixelAt data k = mid" using k by (rule at(3))
      moreover have "score (pixelAt data 0) < score (pixelAt data k)" using m2 False by simp
      ultimately show False using at(1) ml by simp
    qed
  qed
  have a: "accent (the (analyzeImageColors driftImage)) = lo"
    unfolding t using k1 at(2) by simp
  have e: "exactScore hi = 1 / 320" "exactScore lo = 1 / 320" "exactScore mid = 0"
    by (simp_all add: exactScore_def exactLuminance_def hi_def lo_def mid_def Let_def)
  have "\<exists>tone. analyzeImageColors driftImage = Some tone" using t by simp
  then obtain tone where tt: "analyzeImageColors driftImage = Some tone" by blast
  then have "accent tone = lo" using a by simp
  then show ?thesis using tt e hl unfolding hi_def lo_def mid_def by blast
qed

section \<open>Cover fit\<close>

lemma coverCrop_wide:
  assumes "0 < h" and "real w / real h > W / H"
  shows "coverCrop w h =
     (\<lfloor>(real w - of_int \<lfloor>real h * (W / H)\<rfloor>) / 2\<rfloor>, 0, \<lfloor>real h * (W / H)\<rfloor>, int h)"
  using assms by (simp add: coverCrop_def Let_def)

lemma coverCrop_tall:
  assumes "0 < h" and "\<not> real w / real h > W / H"
  shows "coverCrop w h =
     (0, \<lfloor>(real h - of_int \<lfloor>real w / (W / H)\<rfloor>) / 2\<rfloor>, int w, \<lfloor>real w / (W / H)\<rfloor>)"
  using assms by (simp add: coverCrop_def Let_def)

lemma half_floor_bounds:
  fixes d :: real
  assumes "0 \<le> d"
  shows "0 \<le> \<lfloor>d / 2\<rfloor>" and "of_int \<lfloor>d / 2\<rfloor> \<le> d"
proof -
  show "0 \<le> \<lfloor>d / 2\<rfloor>" using assms by simp
  have "of_int \<lfloor>d / 2\<rfloor> \<le> d / 2" by (rule of_int_floor_le)
  then show "of_int \<lfloor>d / 2\<rfloor> \<le> d" using assms by linarith
qed

lemma coverCrop_wide_fields:
  assumes "0 < h" and "real w / real h > W / H" and c: "coverCrop w h = (sx, sy, sw, sh)"
  shows "sw = \<lfloor>real h * (W / H)\<rfloor>" "sh = int h" "sy = 0" "sx = \<lfloor>(real w - of_int sw) / 2\<rfloor>"
proof -
  have "(sx, sy, sw, sh) =
     (\<lfloor>(real w - of_int \<lfloor>real h * (W / H)\<rfloor>) / 2\<rfloor>, 0, \<lfloor>real h * (W / H)\<rfloor>, int h)"
    by (rule trans [OF c [symmetric] coverCrop_wide [OF assms(1) assms(2)]])
  then have a: "sx = \<lfloor>(real w - of_int \<lfloor>real h * (W / H)\<rfloor>) / 2\<rfloor>"
    and b: "sw = \<lfloor>real h * (W / H)\<rfloor>" and "sh = int h" and "sy = 0"
    by (simp_all only: prod.inject)
  then show "sw = \<lfloor>real h * (W / H)\<rfloor>" "sh = int h" "sy = 0" by simp_all
  show "sx = \<lfloor>(real w - of_int sw) / 2\<rfloor>" by (simp only: a b)
qed

lemma coverCrop_tall_fields:
  assumes "0 < h" and "\<not> real w / real h > W / H" and c: "coverCrop w h = (sx, sy, sw, sh)"
  shows "sh = \<lfloor>real w / (W / H)\<rfloor>" "sw = int w" "sx = 0" "sy = \<lfloor>(real h - of_int sh) / 2\<rfloor>"
proof -
  have "(sx, sy, sw, sh) =
     (0, \<lfloor>(real h - of_int \<lfloor>real w / (W / H)\<rfloor>) / 2\<rfloor>, int w, \<lfloor>real w / (W / H)\<rfloor>)"
    by (rule trans [OF c [symmetric] coverCrop_tall [OF assms(1) assms(2)]])
  then have a: "sy = \<lfloor>(real h - of_int \<lfloor>real w / (W / H)\<rfloor>) / 2\<rfloor>"
    and b: "sh = \<lfloor>real w / (W / H)\<rfloor>" and "sw = int w" and "sx = 0"
    by (simp_all only: prod.inject)
  then show "sh = \<lfloor>real w / (W / H)\<rfloor>" "sw = int w" "sx = 0" by simp_all
  show "sy = \<lfloor>(real h - of_int sh) / 2\<rfloor>" by (simp only: a b)
qed

lemma coverCrop_rectangle:
  assumes w: "0 < w" and h: "0 < h" and c: "coverCrop w h = (sx, sy, sw, sh)"
  shows "\<bar>of_int sw - (W / H) * of_int sh\<bar> < (1 :: real) \<and>
         (if real w / real h > W / H
          then sx = \<lfloor>(real w - of_int sw) / 2\<rfloor> \<and> sy = 0 \<and> sh = int h
          else sy = \<lfloor>(real h - of_int sh) / 2\<rfloor> \<and> sx = 0 \<and> sw = int w) \<and>
         (0 \<le> sx \<and> 0 \<le> sy \<and> 0 \<le> sw \<and> 0 \<le> sh \<and> sx + sw \<le> int w \<and> sy + sh \<le> int h)"
proof -
  have ar: "W / H = (4 / 5 :: real)" by (simp add: W_def H_def)
  have p1: "\<bar>of_int sw - (W / H) * of_int sh\<bar> < (1 :: real)"
  proof (cases "real w / real h > W / H")
    case True
    note f = coverCrop_wide_fields [OF h True c]
    have "of_int sw \<le> real h * (4 / 5)" "real h * (4 / 5) < of_int sw + 1"
      unfolding f(1) ar by linarith+
    then show ?thesis unfolding f(2) ar by simp
  next
    case False
    note f = coverCrop_tall_fields [OF h False c]
    have "of_int sh \<le> real w / (4 / 5)" "real w / (4 / 5) < of_int sh + 1"
      unfolding f(1) ar by linarith+
    then show ?thesis unfolding f(2) ar by simp
  qed
  have p2: "if real w / real h > W / H
         then sx = \<lfloor>(real w - of_int sw) / 2\<rfloor> \<and> sy = 0 \<and> sh = int h
         else sy = \<lfloor>(real h - of_int sh) / 2\<rfloor> \<and> sx = 0 \<and> sw = int w"
  proof (cases "real w / real h > W / H")
    case True
    note f = coverCrop_wide_fields [OF h True c]
    show ?thesis using True f(2,3,4) by simp
  next
    case False
    note f = coverCrop_tall_fields [OF h False c]
    show ?thesis using False f(2,3,4) by simp
  qed
  have p3: "0 \<le> sx \<and> 0 \<le> sy \<and> 0 \<le> sw \<and> 0 \<le> sh \<and> sx + sw \<le> int w \<and> sy + sh \<le> int h"
  proof (cases "real w / real h > W / H")
    case True
    note f = coverCrop_wide_fields [OF h True c]
    have wh: "real h * (4 / 5) < real w"
      using True h unfolding ar by (simp add: field_simps)
    have le: "of_int sw \<le> real h * (4 / 5)" unfolding f(1) ar by linarith
    have sw0: "0 \<le> sw" unfolding f(1) ar by simp
    have d: "0 \<le> real w - of_int sw" using le wh by linarith
    have sx0: "0 \<le> sx" using half_floor_bounds(1) [OF d] f(4) by simp
    have "of_int sx \<le> real w - of_int sw" using half_floor_bounds(2) [OF d] f(4) by simp
    then have "sx + sw \<le> int w" by linarith
    then show ?thesis using sx0 sw0 f(2,3) by simp
  next
    case False
    note f = coverCrop_tall_fields [OF h False c]
    have wh: "real w / (4 / 5) \<le> real h"
      using False h unfolding ar by (simp add: field_simps)
    have le: "of_int sh \<le> real w / (4 / 5)" unfolding f(1) ar by linarith
    have sh0: "0 \<le> sh" unfolding f(1) ar by simp
    have d: "0 \<le> real h - of_int sh" using le wh by linarith
    have sy0: "0 \<le> sy" using half_floor_bounds(1) [OF d] f(4) by simp
    have "of_int sy \<le> real h - of_int sh" using half_floor_bounds(2) [OF d] f(4) by simp
    then have "sy + sh \<le> int h" by linarith
    then show ?thesis using sy0 sh0 f(2,3) by simp
  qed
  show ?thesis by (rule conjI [OF p1 conjI [OF p2 p3]])
qed

text \<open>
  Claim C8. When the canvas is there and the background image loads with a positive
  width and height, \<open>draw\<close> sizes the canvas and then draws the image from a source
  rectangle \<open>(sx, sy, sw, sh)\<close> onto the whole canvas, before the plate, the logo and the
  text. That rectangle has \<open>sw\<close> within one pixel of \<open>(960 / 1200) sh\<close>, is centred on the
  axis with excess (\<open>sx\<close> or \<open>sy\<close> is the floor of half the excess, the other offset is 0
  and the other extent is the whole image), and lies within the image.
\<close>

theorem draw_cover_crop:
  assumes r: "canvasReady env" and u: "imageUrl st \<noteq> []"
    and d: "decode env (imageUrl st) = Some img"
    and w: "0 < width img" and h: "0 < height img"
  shows "\<exists>sx sy sw sh.
     draw env st =
       SetCanvasSize W H # DrawImageCropped img sx sy sw sh 0 0 W H #
       drawBottomPlate @ logoLayer env st @ textLayer env st \<and>
     \<bar>of_int sw - (W / H) * of_int sh\<bar> < (1 :: real) \<and>
     (if real (width img) / real (height img) > W / H
      then sx = \<lfloor>(real (width img) - of_int sw) / 2\<rfloor> \<and> sy = 0 \<and> sh = int (height img)
      else sy = \<lfloor>(real (height img) - of_int sh) / 2\<rfloor> \<and> sx = 0 \<and> sw = int (width img)) \<and>
     (0 \<le> sx \<and> 0 \<le> sy \<and> 0 \<le> sw \<and> 0 \<le> sh \<and>
      sx + sw \<le> int (width img) \<and> sy + sh \<le> int (height img))"
proof -
  obtain sx sy sw sh where c: "coverCrop (width img) (height img) = (sx, sy, sw, sh)"
    by (cases "coverCrop (width img) (height img)") blast
  have bg: "backgroundImage env st = Some img"
    using u d by (simp add: backgroundImage_def loadImageSafe_def)
  have "backgroundLayer env st = [DrawImageCropped img sx sy sw sh 0 0 W H]"
    by (simp add: backgroundLayer_def bg c)
  then have "draw env st =
       SetCanvasSize W H # DrawImageCropped img sx sy sw sh 0 0 W H #
       drawBottomPlate @ logoLayer env st @ textLayer env st"
    using r by (simp add: draw_def)
  then show ?thesis using coverCrop_rectangle [OF w h c] by blast
qed

theorem draw_cover_crop_witness:
  "canvasReady photoBrowser \<and> imageUrl photoComposer = ''blob:photo'' \<and>
   decode photoBrowser ''blob:photo'' = Some squarePhoto \<and>
   width squarePhoto = 1000 \<and> height squarePhoto = 1000 \<and>
   take 2 (draw photoBrowser photoComposer) =
     [SetCanvasSize W H, DrawImageCropped squarePhoto 100 0 800 1000 0 0 W H] \<and>
   \<bar>of_int 800 - (W / H) * of_int 1000\<bar> < (1 :: real) \<and>
   (100 :: int) = \<lfloor>(real 1000 - of_int 800) / 2\<rfloor> \<and>
   (100 :: int) + 800 \<le> int 1000"
proof -
  have r: "canvasReady photoBrowser" by (simp add: photoBrowser_def)
  have u: "imageUrl photoComposer = ''blob:photo''" by (simp add: photoComposer_def)
  have d: "decode photoBrowser (imageUrl photoComposer) = Some squarePhoto"
    by (simp add: photoBrowser_def)
  have wh: "width squarePhoto = 1000" "height squarePhoto = 1000"
    by (simp_all add: squarePhoto_def)
  have c: "coverCrop 1000 1000 = (100, 0, 800, 1000)"
    by (simp add: coverCrop_def W_def H_def Let_def)
  have ex: "\<exists>sx sy sw sh.
     draw photoBrowser photoComposer =
       SetCanvasSize W H # DrawImageCropped squarePhoto sx sy sw sh 0 0 W H #
       drawBottomPlate @ logoLayer photoBrowser photoComposer @ textLayer photoBrowser photoComposer \<and>
     \<bar>of_int sw - (W / H) * of_int sh\<bar> < (1 :: real) \<and>
     (if real (width squarePhoto) / real (height squarePhoto) > W / H
      then sx = \<lfloor>(real (width squarePhoto) - of_int sw) / 2\<rfloor> \<and> sy = 0 \<and>
           sh = int (height squarePhoto)
      else sy = \<lfloor>(real (height squarePhoto) - of_int sh) / 2\<rfloor> \<and> sx = 0 \<and>
           sw = int (width squarePhoto)) \<and>
     (0 \<le> sx \<and> 0 \<le> sy \<and> 0 \<le> sw \<and> 0 \<le> sh \<and>
      sx + sw \<le> int (width squarePhoto) \<and> sy + sh \<le> int (height squarePhoto))"
    by (rule draw_cover_crop [OF r _ d]) (simp_all add: u wh)
  have bg: "backgroundLayer photoBrowser photoComposer =
              [DrawImageCropped squarePhoto 100 0 800 1000 0 0 W H]"
    using d by (simp add: backgroundLayer_def backgroundImage_def loadImageSafe_def u wh c)
  have "take 2 (draw photoBrowser photoComposer) =
          [SetCanvasSize W H, DrawImageCropped squarePhoto 100 0 800 1000 0 0 W H]"
    using r by (simp add: draw_def bg)
  moreover have "\<bar>of_int 800 - (W / H) * of_int 1000\<bar> < (1 :: real)"
    by (simp add: W_def H_def)
  ultimately show ?thesis using ex r u d wh by simp
qed

section \<open>Adaptive restyle\<close>

lemma deriveFontStyleFromImage_fields:
  assumes "deriveFontStyleFromImage img u = Some adaptive"
  shows "p_sizePx adaptive \<noteq> None \<and> p_lineHeight adaptive \<noteq> None \<and> p_paddingY adaptive \<noteq> None \<and>
         p_fill adaptive \<noteq> None \<and> p_stroke adaptive \<noteq> None \<and> p_strokeWidth adaptive \<noteq> None \<and>
         p_shadowColor adaptive \<noteq> None \<and>
         p_fontFamily adaptive = Some (pickRandomFontStack (uFont u)) \<and>
         p_paddingX adaptive = None \<and> p_fontWeight adaptive = None \<and>
         p_shadowBlur adaptive = None \<and> p_shadowOffsetY adaptive = None"
proof -
  obtain tone where "analyzeImageColors img = Some tone"
    using assms by (cases "analyzeImageColors img") (simp_all add: deriveFontStyleFromImage_def)
  then show ?thesis
    using assms by (auto simp: deriveFontStyleFromImage_def Let_def)
qed

lemma orElse_Some: "v \<noteq> None \<Longrightarrow> v = Some (orElse v d)"
  by (cases v) (simp_all add: orElse_def)

text \<open>
  Claim C2, as the code has it. Whenever the adaptive restyle runs (an image address is
  set, the preset is adaptive, the image has loaded, the effect is not cancelled and the
  analysis returns a style), the derived style overwrites \<open>fill\<close>, \<open>stroke\<close>,
  \<open>shadowColor\<close>, \<open>strokeWidth\<close>, \<open>size\<close>, \<open>paddingY\<close> and \<open>lineHeight\<close> of the live style;
  \<open>fontWeight\<close> and \<open>fontFamily\<close> always keep their previous values, the randomly
  derived font stack being dropped; \<open>paddingX\<close>, \<open>shadowBlur\<close> and \<open>shadowOffsetY\<close> are
  unchanged.
\<close>

theorem adaptStyle_merge:
  assumes "url \<noteq> []" and "mode = Adaptive"
    and "loadImageSafe dec url = Some img" and "\<not> cancelled"
    and d: "deriveFontStyleFromImage img u = Some adaptive"
    and n: "next = adaptStyle dec url mode cancelled u prev"
  shows "p_fill adaptive = Some (fill next) \<and> p_stroke adaptive = Some (stroke next) \<and>
         p_shadowColor adaptive = Some (shadowColor next) \<and>
         p_strokeWidth adaptive = Some (strokeWidth next) \<and>
         p_sizePx adaptive = Some (sizePx next) \<and> p_paddingY adaptive = Some (paddingY next) \<and>
         p_lineHeight adaptive = Some (lineHeight next) \<and>
         fontWeight next = fontWeight prev \<and> fontFamily next = fontFamily prev \<and>
         p_fontFamily adaptive = Some (pickRandomFontStack (uFont u)) \<and>
         paddingX next = paddingX prev \<and> shadowBlur next = shadowBlur prev \<and>
         shadowOffsetY next = shadowOffsetY prev"
proof -
  have m: "next = mergeAdaptive prev adaptive"
    using assms by (simp add: adaptStyle_def)
  note f = deriveFontStyleFromImage_fields [OF d]
  show ?thesis
    unfolding m mergeAdaptive_def spread_def
    using f by (simp add: orElse_Some) (simp add: orElse_def)
qed


lemma analyze_black:
  "analyzeImageColors (greyImage 0) =
     Some \<lparr>average = \<lparr>rgb_r = 0, rgb_g = 0, rgb_b = 0\<rparr>,
           accent = \<lparr>rgb_r = 0, rgb_g = 0, rgb_b = 0\<rparr>, isDark = True\<rparr>"
proof -
  have "analyzeImageColors (greyImage 0) =
          Some \<lparr>average = pixel 0 0 0, accent = pixel 0 0 0,
                isDark = (getLuminance (pixel 0 0 0) < 115)\<rparr>"
    by (rule analyze_flat [OF sampled_grey])
  then show ?thesis by (simp add: pixel_def luminance_black)
qed

lemma toHex_65: "toHex 65 = ''41''" and toHex_0: "toHex 0 = ''00''"
  by (simp_all add: toHex_def js_round_def clamp_def hexDigit_def Let_def)

lemma derive_black:
  "deriveFontStyleFromImage (greyImage 0) sampleDraws =
     Some \<lparr>p_sizePx = Some 55, p_lineHeight = Some 1.215, p_paddingX = None,
           p_paddingY = Some 87, p_fontWeight = None, p_fill = Some ''#414141'',
           p_stroke = Some ''#000000'', p_strokeWidth = Some 3.6,
           p_shadowColor = Some ''rgba(0,0,0,0.55)'', p_shadowBlur = None,
           p_shadowOffsetY = None,
           p_fontFamily = Some (buildFontStack (Some ''Kanit''))\<rparr>"
  by (simp add: deriveFontStyleFromImage_def analyze_black sampleDraws_def adjustColor_def
        clamp_def rgbToHex_def toHex_65 toHex_0 js_round_def pickRandomFontStack_def
        FONT_CHOICES_def Let_def)

lemma adapt_black:
  "adaptStyle blackPhoto ''blob:photo'' Adaptive False sampleDraws (initialFontStyle []) =
     (initialFontStyle [])\<lparr>sizePx := 55, lineHeight := 1.215, paddingY := 87,
        fill := ''#414141'', stroke := ''#000000'', strokeWidth := 3.6,
        shadowColor := ''rgba(0,0,0,0.55)''\<rparr>"
  by (simp add: adaptStyle_def loadImageSafe_def blackPhoto_def derive_black mergeAdaptive_def
        spread_def orElse_def initialFontStyle_def)

theorem adaptStyle_merge_witness:
  "adaptStyle blackPhoto ''blob:photo'' Adaptive False sampleDraws (initialFontStyle []) =
     (initialFontStyle [])\<lparr>sizePx := 55, lineHeight := 1.215, paddingY := 87,
        fill := ''#414141'', stroke := ''#000000'', strokeWidth := 3.6,
        shadowColor := ''rgba(0,0,0,0.55)''\<rparr> \<and>
   fontWeight (adaptStyle blackPhoto ''blob:photo'' Adaptive False sampleDraws
     (initialFontStyle [])) = 700 \<and>
   fontFamily (adaptStyle blackPhoto ''blob:photo'' Adaptive False sampleDraws
     (initialFontStyle [])) = SARABUN_STACK []"
proof -
  have l: "loadImageSafe blackPhoto ''blob:photo'' = Some (greyImage 0)"
    by (simp add: loadImageSafe_def blackPhoto_def)
  have u: "''blob:photo'' \<noteq> []" by simp
  have "fontWeight (adaptStyle blackPhoto ''blob:photo'' Adaptive False sampleDraws
          (initialFontStyle [])) = fontWeight (initialFontStyle []) \<and>
        fontFamily (adaptStyle blackPhoto ''blob:photo'' Adaptive False sampleDraws
          (initialFontStyle [])) = fontFamily (initialFontStyle [])"
    using adaptStyle_merge [OF u refl l _ derive_black refl, of False "initialFontStyle []"]
    by simp
  then show ?thesis using adapt_black by (simp add: initialFontStyle_def)
qed

text \<open>
  The claim as the specification states it fails on the font family: from the initial
  style, where the user has pinned nothing, the restyle derives the Kanit stack and the
  live style keeps the Sarabun stack.
\<close>

theorem adaptStyle_fontFamily_counterexample:
  "fontFamily (adaptStyle blackPhoto ''blob:photo'' Adaptive False sampleDraws
     (initialFontStyle [])) = SARABUN_STACK [] \<and>
   deriveFontStyleFromImage (greyImage 0) sampleDraws =
     Some \<lparr>p_sizePx = Some 55, p_lineHeight = Some 1.215, p_paddingX = None,
           p_paddingY = Some 87, p_fontWeight = None, p_fill = Some ''#414141'',
           p_stroke = Some ''#000000'', p_strokeWidth = Some 3.6,
           p_shadowColor = Some ''rgba(0,0,0,0.55)'', p_shadowBlur = None,
           p_shadowOffsetY = None,
           p_fontFamily = Some (buildFontStack (Some ''Kanit''))\<rparr> \<and>
   SARABUN_STACK [] \<noteq> buildFontStack (Some ''Kanit'')"
proof -
  have "fontFamily (adaptStyle blackPhoto ''blob:photo'' Adaptive False sampleDraws
          (initialFontStyle [])) = fontFamily (initialFontStyle [])"
    by (simp only: adapt_black) simp
  then have a: "fontFamily (adaptStyle blackPhoto ''blob:photo'' Adaptive False sampleDraws
          (initialFontStyle [])) = SARABUN_STACK []"
    by (simp add: initialFontStyle_def)
  have c: "SARABUN_STACK [] \<noteq> buildFontStack (Some ''Kanit'')"
    by (simp add: SARABUN_STACK_def buildFontStack_def)
  show ?thesis using a derive_black c by blast
qed

section \<open>The render pass: background and text below the floor\<close>

text \<open>
  Claim C9. In a render pass with a canvas where the background image is absent (no
  address) or fails to load, \<open>loadImageSafe\<close> gives the absence value, so the pass has no
  background image, and it goes on: after sizing the canvas it fills the whole canvas
  with the vertical gradient from \<open>#0c1224\<close> at the top to \<open>#05070f\<close> at the bottom, then
  draws the plate, the logo layer and the text layer.
\<close>

theorem draw_fallback_background:
  assumes "canvasReady env" and "imageUrl st = [] \<or> decode env (imageUrl st) = None"
  shows "backgroundImage env st = None \<and>
         draw env st =
           SetCanvasSize W H #
           SetFillStyle (LinearGradient 0 0 0 H [(0, ''#0c1224''), (1, ''#05070f'')]) #
           FillRect 0 0 W H #
           drawBottomPlate @ logoLayer env st @ textLayer env st"
proof -
  have b: "backgroundImage env st = None"
    using assms(2) by (auto simp: backgroundImage_def loadImageSafe_def)
  then have "backgroundLayer env st = drawFallbackBackground"
    by (simp add: backgroundLayer_def)
  then show ?thesis using assms(1) b by (simp add: draw_def drawFallbackBackground_def)
qed

theorem draw_fallback_background_witness:
  "canvasReady testBrowser \<and>
   decode testBrowser ''https://example.invalid/photo.png'' = None \<and>
   take 3 (draw testBrowser (initialComposer\<lparr>imageUrl := ''https://example.invalid/photo.png''\<rparr>)) =
     [SetCanvasSize 960 1200,
      SetFillStyle (LinearGradient 0 0 0 1200 [(0, ''#0c1224''), (1, ''#05070f'')]),
      FillRect 0 0 960 1200]"
proof -
  have c: "canvasReady testBrowser" by (simp add: testBrowser_def)
  have d: "decode testBrowser (imageUrl (initialComposer\<lparr>imageUrl := ''https://example.invalid/photo.png''\<rparr>)) = None"
    by (simp add: testBrowser_def)
  show ?thesis
    using draw_fallback_background [OF c disjI2 [OF d]] c d by (simp add: W_def H_def)
qed

lemma fitLoop_small:
  "drawFontSize < 34 \<Longrightarrow>
   fitLoop mt fs safeText maxW drawFontSize lines tried = (drawFontSize, lines, tried)"
  by (simp add: fitLoop.simps)

lemma no_text_background: "filter isTextCall (backgroundLayer env st) = []"
  by (cases "backgroundImage env st")
     (simp_all add: backgroundLayer_def drawFallbackBackground_def split: prod.splits)

lemma no_text_plate: "filter isTextCall drawBottomPlate = []"
  by (simp add: drawBottomPlate_def)

lemma no_text_logo: "filter isTextCall (logoLayer env st) = []"
  unfolding logoLayer_def Let_def
  by (cases "logoUrl st = []"; cases "loadLogoSafe (decode env) (logoUrl st)"; simp)

text \<open>
  Claim C10. When \<open>draw\<close> runs with a canvas and a configured font size below 34, the
  body of the fitting loop never runs (no size is tried), the line list stays empty and
  the pass makes no \<open>strokeText\<close> and no \<open>fillText\<close> call, whatever the text; the
  background, the plate and the logo layer are drawn as usual.
\<close>

theorem draw_small_size_no_text:
  assumes "canvasReady env" and "sizePx (fontStyle st) < 34"
  shows "fitText env st = (sizePx (fontStyle st), [], []) \<and>
         filter isTextCall (draw env st) = [] \<and>
         draw env st =
           SetCanvasSize W H # backgroundLayer env st @ drawBottomPlate @ logoLayer env st @
           textLayer env st"
proof -
  have f: "fitText env st = (sizePx (fontStyle st), [], [])"
    unfolding fitText_def by (rule fitLoop_small [OF assms(2)])
  have "filter isTextCall (textLayer env st) = []"
    by (simp add: textLayer_def f strokeLines_def fillLines_def Let_def)
  then have "filter isTextCall (draw env st) = []"
    using assms(1) by (simp add: draw_def no_text_background no_text_plate no_text_logo)
  then show ?thesis using f assms(1) by (simp add: draw_def)
qed


lemma trim_DEFAULT_TEXT: "trim DEFAULT_TEXT = DEFAULT_TEXT"
  by (simp add: trim_def DEFAULT_TEXT_def isWhiteSpace_def)

theorem draw_small_size_no_text_witness:
  "canvasReady testBrowser \<and>
   sizePx (fontStyle (initialComposer\<lparr>fontStyle := (initialFontStyle [])\<lparr>sizePx := 32\<rparr>\<rparr>)) < 34 \<and>
   trim (textValue (initialComposer\<lparr>fontStyle := (initialFontStyle [])\<lparr>sizePx := 32\<rparr>\<rparr>)) \<noteq> [] \<and>
   fitText testBrowser (initialComposer\<lparr>fontStyle := (initialFontStyle [])\<lparr>sizePx := 32\<rparr>\<rparr>) =
     (32, [], []) \<and>
   filter isTextCall
     (draw testBrowser (initialComposer\<lparr>fontStyle := (initialFontStyle [])\<lparr>sizePx := 32\<rparr>\<rparr>)) = []"
proof -
  have c: "canvasReady testBrowser" by (simp add: testBrowser_def)
  have z: "sizePx (fontStyle (initialComposer\<lparr>fontStyle := (initialFontStyle [])\<lparr>sizePx := 32\<rparr>\<rparr>)) < 34"
    by simp
  have t: "trim (textValue (initialComposer\<lparr>fontStyle := (initialFontStyle [])\<lparr>sizePx := 32\<rparr>\<rparr>)) \<noteq> []"
    by (simp add: initialComposer_def trim_DEFAULT_TEXT) (simp add: DEFAULT_TEXT_def)
  note r = draw_small_size_no_text [OF c z]
  have f: "fitText testBrowser (initialComposer\<lparr>fontStyle := (initialFontStyle [])\<lparr>sizePx := 32\<rparr>\<rparr>) =
     (32, [], [])"
    using r [THEN conjunct1] by simp
  have g: "filter isTextCall
     (draw testBrowser (initialComposer\<lparr>fontStyle := (initialFontStyle [])\<lparr>sizePx := 32\<rparr>\<rparr>)) = []"
    by (rule r [THEN conjunct2, THEN conjunct1])
  show ?thesis using c z t f g by blast
qed

section \<open>The render pass: placement of the text block\<close>

lemma textYs_append: "textYs (xs @ ys) = textYs xs @ textYs ys"
  by (induction xs rule: textYs.induct) simp_all

lemma textYs_filter: "textYs (filter isBaselineOrText cs) = textYs cs"
  by (induction cs rule: textYs.induct) simp_all

lemma enumerate_nth:
  "map (\<lambda>(idx, row). g idx row) (enumerate 0 lines) =
   map (\<lambda>idx. g idx (lines ! idx)) [0..<length lines]"
  by (rule nth_equalityI) (simp_all add: nth_enumerate_eq)

lemma strokeLines_nth:
  "strokeLines fs y0 s lines =
   map (\<lambda>idx. StrokeText (lines ! idx) (W / 2) (lineY fs y0 s idx)) [0..<length lines]"
  unfolding strokeLines_def
  by (rule enumerate_nth [of "\<lambda>idx row. StrokeText row (W / 2) (lineY fs y0 s idx)"])

lemma fillLines_nth:
  "fillLines fs y0 s lines =
   map (\<lambda>idx. FillText (lines ! idx) (W / 2) (lineY fs y0 s idx)) [0..<length lines]"
  unfolding fillLines_def
  by (rule enumerate_nth [of "\<lambda>idx row. FillText row (W / 2) (lineY fs y0 s idx)"])

lemma filter_stroke:
  "filter isBaselineOrText (map (\<lambda>idx. StrokeText (g idx) x (f idx)) ids) =
   map (\<lambda>idx. StrokeText (g idx) x (f idx)) ids"
  by (induction ids) simp_all

lemma filter_fill:
  "filter isBaselineOrText (map (\<lambda>idx. FillText (g idx) x (f idx)) ids) =
   map (\<lambda>idx. FillText (g idx) x (f idx)) ids"
  by (induction ids) simp_all

lemma filter_fonts: "filter isBaselineOrText (map (\<lambda>z. SetFont (fontOf fs z)) tried) = []"
  by (induction tried) simp_all

lemma baseline_background: "filter isBaselineOrText (backgroundLayer env st) = []"
  by (cases "backgroundImage env st")
     (simp_all add: backgroundLayer_def drawFallbackBackground_def split: prod.splits)

lemma baseline_plate: "filter isBaselineOrText drawBottomPlate = []"
  by (simp add: drawBottomPlate_def)

lemma baseline_logo: "filter isBaselineOrText (logoLayer env st) = []"
  unfolding logoLayer_def Let_def
  by (cases "logoUrl st = []"; cases "loadLogoSafe (decode env) (logoUrl st)"; simp)

lemma baseline_textLayer:
  assumes "trim (textValue st) \<noteq> []" and "fitText env st = (s, lines, tried)"
  shows "filter isBaselineOrText (textLayer env st) =
     SetTextBaseline ''middle'' #
     map (\<lambda>idx. StrokeText (lines ! idx) (W / 2)
            (lineY (fontStyle st) (startY (fontStyle st) (totalTextHeight (fontStyle st) lines s)) s idx))
       [0..<length lines] @
     map (\<lambda>idx. FillText (lines ! idx) (W / 2)
            (lineY (fontStyle st) (startY (fontStyle st) (totalTextHeight (fontStyle st) lines s)) s idx))
       [0..<length lines]"
  using assms
  by (simp add: textLayer_def Let_def filter_fonts strokeLines_nth fillLines_nth filter_stroke
        filter_fill)

lemma baseline_draw:
  assumes "canvasReady env" and "trim (textValue st) \<noteq> []"
    and "fitText env st = (s, lines, tried)"
  shows "filter isBaselineOrText (draw env st) =
     SetTextBaseline ''middle'' #
     map (\<lambda>idx. StrokeText (lines ! idx) (W / 2)
            (lineY (fontStyle st) (startY (fontStyle st) (totalTextHeight (fontStyle st) lines s)) s idx))
       [0..<length lines] @
     map (\<lambda>idx. FillText (lines ! idx) (W / 2)
            (lineY (fontStyle st) (startY (fontStyle st) (totalTextHeight (fontStyle st) lines s)) s idx))
       [0..<length lines]"
  using assms(1) baseline_textLayer [OF assms(2,3)]
  by (simp add: draw_def baseline_background baseline_plate baseline_logo)

lemma textYs_stroke: "textYs (map (\<lambda>idx. StrokeText (g idx) x (f idx)) ids) = map f ids"
  by (induction ids) simp_all

lemma textYs_fill: "textYs (map (\<lambda>idx. FillText (g idx) x (f idx)) ids) = map f ids"
  by (induction ids) simp_all

lemma textYs_draw:
  assumes "canvasReady env" and "trim (textValue st) \<noteq> []"
    and "fitText env st = (s, lines, tried)"
  shows "textYs (draw env st) =
     map (lineY (fontStyle st) (startY (fontStyle st) (totalTextHeight (fontStyle st) lines s)) s)
       [0..<length lines] @
     map (lineY (fontStyle st) (startY (fontStyle st) (totalTextHeight (fontStyle st) lines s)) s)
       [0..<length lines]"
proof -
  have "textYs (draw env st) = textYs (filter isBaselineOrText (draw env st))"
    by (simp only: textYs_filter)
  then show ?thesis
    unfolding baseline_draw [OF assms] by (simp add: textYs_append textYs_stroke textYs_fill)
qed

text \<open>The least and the greatest of \<open>n\<close> equally spaced values add up to the first plus the last.\<close>

lemma span_spaced:
  fixes a c :: real
  assumes "0 < n"
  shows "Min ((\<lambda>i. a + real i * c) ` {0..<n}) + Max ((\<lambda>i. a + real i * c) ` {0..<n}) =
         a + (a + real (n - 1) * c)"
proof -
  define f where "f = (\<lambda>i. a + real i * c)"
  have fin: "finite (f ` {0..<n})" by simp
  have m0: "f 0 \<in> f ` {0..<n}" and m1: "f (n - 1) \<in> f ` {0..<n}" using assms by simp_all
  have idx: "real i \<le> real (n - 1)" if "i < n" for i using that by simp
  have "Min (f ` {0..<n}) + Max (f ` {0..<n}) = f 0 + f (n - 1)"
  proof (cases "0 \<le> c")
    case True
    have lo: "f 0 \<le> y" if "y \<in> f ` {0..<n}" for y
      using that True by (auto simp: f_def)
    have hi: "y \<le> f (n - 1)" if y: "y \<in> f ` {0..<n}" for y
    proof -
      obtain i where i: "i < n" "y = f i" using y by auto
      have "real i * c \<le> real (n - 1) * c" using idx [OF i(1)] True by (rule mult_right_mono)
      then show ?thesis by (simp add: i(2) f_def)
    qed
    have "Min (f ` {0..<n}) = f 0" using fin lo m0 by (rule Min_eqI)
    moreover have "Max (f ` {0..<n}) = f (n - 1)" using fin hi m1 by (rule Max_eqI)
    ultimately show ?thesis by simp
  next
    case False
    then have neg: "c \<le> 0" by simp
    have hi: "y \<le> f 0" if y: "y \<in> f ` {0..<n}" for y
    proof -
      obtain i where i: "i < n" "y = f i" using y by auto
      have "real i * c \<le> 0" using neg by (simp add: mult_nonneg_nonpos)
      then show ?thesis by (simp add: i(2) f_def)
    qed
    have lo: "f (n - 1) \<le> y" if y: "y \<in> f ` {0..<n}" for y
    proof -
      obtain i where i: "i < n" "y = f i" using y by auto
      have "real (n - 1) * c \<le> real i * c" using idx [OF i(1)] neg by (rule mult_right_mono_neg)
      then show ?thesis by (simp add: i(2) f_def)
    qed
    have "Min (f ` {0..<n}) = f (n - 1)" using fin lo m1 by (rule Min_eqI)
    moreover have "Max (f ` {0..<n}) = f 0" using fin hi m0 by (rule Max_eqI)
    ultimately show ?thesis by simp
  qed
  then show ?thesis by (simp add: f_def)
qed

lemma blockCentre_lines:
  assumes "0 < n"
  shows "blockCentre (map (lineY fs y0 s) [0..<n] @ map (lineY fs y0 s) [0..<n]) =
         Some (y0 + real (n - 1) * (s * lineHeight fs) / 2)"
proof -
  have f: "lineY fs y0 s = (\<lambda>i. y0 + real i * (s * lineHeight fs))"
    by (rule ext) (simp add: lineY_def)
  have ne: "map (lineY fs y0 s) [0..<n] @ map (lineY fs y0 s) [0..<n] \<noteq> []"
    using assms by simp
  have st: "set (map (lineY fs y0 s) [0..<n] @ map (lineY fs y0 s) [0..<n]) =
            (\<lambda>i. y0 + real i * (s * lineHeight fs)) ` {0..<n}"
    by (simp add: f)
  have "blockCentre (map (lineY fs y0 s) [0..<n] @ map (lineY fs y0 s) [0..<n]) =
        Some ((y0 + (y0 + real (n - 1) * (s * lineHeight fs))) / 2)"
    using ne by (simp only: blockCentre_def if_False st span_spaced [OF assms])
  then show ?thesis by (simp add: field_simps)
qed

lemma centre_of_lines:
  assumes "0 < n"
  shows "startY fs (real n * s * lineHeight fs) + real (n - 1) * (s * lineHeight fs) / 2 =
         H - paddingY fs - s * lineHeight fs / 2"
proof -
  have "real (n - 1) = real n - 1" using assms by (simp add: of_nat_diff)
  then show ?thesis by (simp add: startY_def field_simps)
qed

lemma centre_at_anchor:
  fixes p s h :: real
  assumes "0 < n"
  shows "(H - p - s * h / 2 = H - p - real n * s * h / 2) \<longleftrightarrow> (n = 1 \<or> s * h = 0)"
proof -
  have "(H - p - s * h / 2 = H - p - real n * s * h / 2) \<longleftrightarrow> (real n - 1) * (s * h) = 0"
    by (simp add: field_simps)
  also have "\<dots> \<longleftrightarrow> (real n = 1 \<or> s * h = 0)" by (simp only: mult_eq_0_iff) simp
  also have "\<dots> \<longleftrightarrow> (n = 1 \<or> s * h = 0)" by simp
  finally show ?thesis .
qed

text \<open>
  Claim C3, as the code has it. For every render with a canvas of a non-empty trimmed
  text that gives \<open>n > 0\<close> lines at the font size \<open>s\<close> left by the fitting loop, with
  line-height ratio \<open>h\<close>: the total height is \<open>n s h\<close>; the baseline is set to \<open>middle\<close>
  once, before any text call, and the text calls are a \<open>strokeText\<close> of every line and
  then a \<open>fillText\<close> of every line, the line at index \<open>idx\<close> at \<open>x = W / 2\<close> and
  \<open>y = H - paddingY - totalHeight / 2 + idx s h\<close>, so the first line sits at
  \<open>H - paddingY - totalHeight / 2\<close> and successive lines are \<open>s h\<close> apart; the vertical
  centre of the block of lines is \<open>H - paddingY - s h / 2\<close>, whatever \<open>n\<close> is; and that
  centre is \<open>H - paddingY - totalHeight / 2\<close> exactly when \<open>n = 1\<close> or \<open>s h = 0\<close>.
\<close>

theorem draw_text_block_placement:
  assumes "canvasReady env" and "trim (textValue st) \<noteq> []"
    and "fitText env st = (s, lines, tried)" and "lines \<noteq> []"
  shows "totalTextHeight (fontStyle st) lines s = real (length lines) * s * lineHeight (fontStyle st) \<and>
         filter isBaselineOrText (draw env st) =
           SetTextBaseline ''middle'' #
           map (\<lambda>idx. StrokeText (lines ! idx) (W / 2)
                  (H - paddingY (fontStyle st) - totalTextHeight (fontStyle st) lines s / 2 +
                   real idx * s * lineHeight (fontStyle st))) [0..<length lines] @
           map (\<lambda>idx. FillText (lines ! idx) (W / 2)
                  (H - paddingY (fontStyle st) - totalTextHeight (fontStyle st) lines s / 2 +
                   real idx * s * lineHeight (fontStyle st))) [0..<length lines] \<and>
         blockCentre (textYs (draw env st)) =
           Some (H - paddingY (fontStyle st) - s * lineHeight (fontStyle st) / 2) \<and>
         ((H - paddingY (fontStyle st) - s * lineHeight (fontStyle st) / 2 =
           H - paddingY (fontStyle st) - totalTextHeight (fontStyle st) lines s / 2) \<longleftrightarrow>
          (length lines = 1 \<or> s * lineHeight (fontStyle st) = 0))"
proof -
  have n: "0 < length lines" using assms(4) by simp
  have a: "totalTextHeight (fontStyle st) lines s =
           real (length lines) * s * lineHeight (fontStyle st)"
    by (simp add: totalTextHeight_def)
  have b: "filter isBaselineOrText (draw env st) =
           SetTextBaseline ''middle'' #
           map (\<lambda>idx. StrokeText (lines ! idx) (W / 2)
                  (H - paddingY (fontStyle st) - totalTextHeight (fontStyle st) lines s / 2 +
                   real idx * s * lineHeight (fontStyle st))) [0..<length lines] @
           map (\<lambda>idx. FillText (lines ! idx) (W / 2)
                  (H - paddingY (fontStyle st) - totalTextHeight (fontStyle st) lines s / 2 +
                   real idx * s * lineHeight (fontStyle st))) [0..<length lines]"
    unfolding baseline_draw [OF assms(1,2,3)] by (simp add: lineY_def startY_def)
  have c: "blockCentre (textYs (draw env st)) =
           Some (H - paddingY (fontStyle st) - s * lineHeight (fontStyle st) / 2)"
    unfolding textYs_draw [OF assms(1,2,3)] blockCentre_lines [OF n] totalTextHeight_def
      centre_of_lines [OF n] by (rule refl)
  have d: "(H - paddingY (fontStyle st) - s * lineHeight (fontStyle st) / 2 =
            H - paddingY (fontStyle st) - totalTextHeight (fontStyle st) lines s / 2) \<longleftrightarrow>
           (length lines = 1 \<or> s * lineHeight (fontStyle st) = 0)"
    unfolding totalTextHeight_def by (rule centre_at_anchor [OF n])
  show ?thesis by (rule conjI [OF a conjI [OF b conjI [OF c d]]])
qed

lemma trim_two: "trim twoLineText = twoLineText"
  by (simp add: trim_def isWhiteSpace_def twoLineText_def)

lemma wrap_two:
  "wrapText (emWidth (fontOf fs 54)) twoLineText 800 =
     [[97, 97, 97, 97, 97, 97, 97, 97], [98, 98, 98, 98, 98, 98, 98, 98]]"
  by (simp add: wrapText_def paragraphsOf_def stripCR_def CR_def NL_def SP_def
        wrapParagraph_def wrapTokens_def wrapStep_def tokens_def hasSpace_def
        emWidth_def fontOf_def twoLineText_def)

lemma fontOf_size: "fSizePx (fontOf fs s) = s"
  by (simp add: fontOf_def)

lemma fit_two:
  "fitText testBrowser twoLineComposer =
     (54, [[97, 97, 97, 97, 97, 97, 97, 97], [98, 98, 98, 98, 98, 98, 98, 98]], [54])"
proof -
  have a: "measureText testBrowser = emWidth" by (simp add: testBrowser_def)
  have b: "trim (textValue twoLineComposer) = twoLineText"
    by (simp add: twoLineComposer_def trim_two)
  have c: "maxTextWidth (fontStyle twoLineComposer) = 800"
    by (simp add: twoLineComposer_def initialComposer_def initialFontStyle_def maxTextWidth_def W_def)
  have d: "sizePx (fontStyle twoLineComposer) = 54"
    by (simp add: twoLineComposer_def initialComposer_def initialFontStyle_def)
  show ?thesis
    unfolding fitText_def a b c d
    by (subst fitLoop.simps) (simp add: wrap_two Let_def emWidth_def fontOf_size)
qed

lemma two_lines_ys:
  "textYs (draw testBrowser twoLineComposer) = [1044.12, 1110, 1044.12, 1110]"
proof -
  have c: "canvasReady testBrowser" by (simp add: testBrowser_def)
  have t: "trim (textValue twoLineComposer) \<noteq> []"
    by (simp add: twoLineComposer_def trim_two) (simp add: twoLineText_def)
  show ?thesis
    unfolding textYs_draw [OF c t fit_two]
    by (simp add: lineY_def startY_def totalTextHeight_def H_def twoLineComposer_def
          initialComposer_def initialFontStyle_def upt_conv_Cons)
qed

lemma two_lines_centre:
  "blockCentre (textYs (draw testBrowser twoLineComposer)) = Some 1077.06"
  unfolding two_lines_ys by (simp add: blockCentre_def)

theorem draw_text_block_placement_witness:
  "canvasReady testBrowser \<and> trim (textValue twoLineComposer) \<noteq> [] \<and>
   fitText testBrowser twoLineComposer =
     (54, [[97, 97, 97, 97, 97, 97, 97, 97], [98, 98, 98, 98, 98, 98, 98, 98]], [54]) \<and>
   filter isBaselineOrText (draw testBrowser twoLineComposer) =
     [SetTextBaseline ''middle'',
      StrokeText [97, 97, 97, 97, 97, 97, 97, 97] 480 1044.12,
      StrokeText [98, 98, 98, 98, 98, 98, 98, 98] 480 1110,
      FillText [97, 97, 97, 97, 97, 97, 97, 97] 480 1044.12,
      FillText [98, 98, 98, 98, 98, 98, 98, 98] 480 1110] \<and>
   blockCentre (textYs (draw testBrowser twoLineComposer)) = Some 1077.06"
proof -
  have c: "canvasReady testBrowser" by (simp add: testBrowser_def)
  have t: "trim (textValue twoLineComposer) \<noteq> []"
    by (simp add: twoLineComposer_def trim_two) (simp add: twoLineText_def)
  have n: "[[97, 97, 97, 97, 97, 97, 97, 97], [98, 98, 98, 98, 98, 98, 98, 98 :: jschar]] \<noteq> []"
    by simp
  note r = draw_text_block_placement [OF c t fit_two n]
  have a: "filter isBaselineOrText (draw testBrowser twoLineComposer) =
     [SetTextBaseline ''middle'',
      StrokeText [97, 97, 97, 97, 97, 97, 97, 97] 480 1044.12,
      StrokeText [98, 98, 98, 98, 98, 98, 98, 98] 480 1110,
      FillText [97, 97, 97, 97, 97, 97, 97, 97] 480 1044.12,
      FillText [98, 98, 98, 98, 98, 98, 98, 98] 480 1110]"
    unfolding r [THEN conjunct2, THEN conjunct1]
    by (simp add: totalTextHeight_def H_def W_def twoLineComposer_def
          initialComposer_def initialFontStyle_def upt_conv_Cons)
  have b: "blockCentre (textYs (draw testBrowser twoLineComposer)) = Some 1077.06"
    unfolding r [THEN conjunct2, THEN conjunct2, THEN conjunct1]
    by (simp add: H_def twoLineComposer_def initialComposer_def initialFontStyle_def)
  show ?thesis using c t fit_two a b by blast
qed

text \<open>
  The claim as the specification states it fails with two lines: at size 54 and line
  height 1.22 the lines are drawn at 1044.12 and 1110, so the block is centred at
  1077.06, while \<open>H - paddingY - totalHeight / 2\<close> is 1044.12, the \<open>y\<close> of the first line.
\<close>

theorem draw_block_centre_counterexample:
  "fitText testBrowser twoLineComposer =
     (54, [[97, 97, 97, 97, 97, 97, 97, 97], [98, 98, 98, 98, 98, 98, 98, 98]], [54]) \<and>
   textYs (draw testBrowser twoLineComposer) = [1044.12, 1110, 1044.12, 1110] \<and>
   blockCentre (textYs (draw testBrowser twoLineComposer)) = Some 1077.06 \<and>
   H - paddingY (fontStyle twoLineComposer) -
     totalTextHeight (fontStyle twoLineComposer)
       [[97, 97, 97, 97, 97, 97, 97, 97], [98, 98, 98, 98, 98, 98, 98, 98]] 54 / 2 = 1044.12"
proof -
  have "H - paddingY (fontStyle twoLineComposer) -
     totalTextHeight (fontStyle twoLineComposer)
       [[97, 97, 97, 97, 97, 97, 97, 97], [98, 98, 98, 98, 98, 98, 98, 98]] 54 / 2 = 1044.12"
    by (simp add: totalTextHeight_def H_def twoLineComposer_def initialComposer_def
          initialFontStyle_def)
  then show ?thesis using fit_two two_lines_ys two_lines_centre by blast
qed

section \<open>The render pass: font-size fitting\<close>

lemma trim_overflow: "trim overflowText = overflowText"
  by (simp add: trim_def isWhiteSpace_def overflowText_def)

lemma wrap_overflow:
  "34 \<le> s \<Longrightarrow>
   wrapText (emWidth (fontOf fs s)) overflowText 800 =
     [[97], [87, 87, 87, 87, 87, 87, 87, 87, 87, 87, 87, 87, 87, 87, 87, 87, 87, 87, 87, 87, 87,
      87, 87, 87]]"
  by (simp add: wrapText_def paragraphsOf_def stripCR_def CR_def NL_def SP_def
        wrapParagraph_def wrapTokens_def wrapStep_def tokens_def hasSpace_def
        emWidth_def fontOf_size overflowText_def)

lemma fit_overflow:
  "fitText testBrowser overflowComposer =
     (32, [[97], [87, 87, 87, 87, 87, 87, 87, 87, 87, 87, 87, 87, 87, 87, 87, 87, 87, 87, 87, 87,
      87, 87, 87, 87]], [54, 52, 50, 48, 46, 44, 42, 40, 38, 36, 34])"
proof -
  have a: "measureText testBrowser = emWidth" by (simp add: testBrowser_def)
  have b: "trim (textValue overflowComposer) = overflowText"
    by (simp add: overflowComposer_def trim_overflow)
  have c: "maxTextWidth (fontStyle overflowComposer) = 800"
    by (simp add: overflowComposer_def initialComposer_def initialFontStyle_def maxTextWidth_def W_def)
  have d: "sizePx (fontStyle overflowComposer) = 54"
    by (simp add: overflowComposer_def initialComposer_def initialFontStyle_def)
  show ?thesis
    unfolding fitText_def a b c d
    by (simp add: fitLoop.simps wrap_overflow Let_def emWidth_def fontOf_size)
qed

lemma fitLoop_stop:
  "\<not> 34 \<le> s \<Longrightarrow> fitLoop mt fs t mw s lines tried = (s, lines, tried)"
  by (simp add: fitLoop.simps)

lemma fitLoop_fit:
  "34 \<le> s \<Longrightarrow>
   foldl (\<lambda>acc row. max acc (mt (fontOf fs s) row)) 0 (wrapText (mt (fontOf fs s)) t mw) \<le> mw \<Longrightarrow>
   fitLoop mt fs t mw s lines tried = (s, wrapText (mt (fontOf fs s)) t mw, tried @ [s])"
  by (subst fitLoop.simps) (simp add: Let_def)

lemma fitLoop_shrink:
  "34 \<le> s \<Longrightarrow>
   \<not> foldl (\<lambda>acc row. max acc (mt (fontOf fs s) row)) 0 (wrapText (mt (fontOf fs s)) t mw) \<le> mw \<Longrightarrow>
   fitLoop mt fs t mw s lines tried =
     fitLoop mt fs t mw (s - 2) (wrapText (mt (fontOf fs s)) t mw) (tried @ [s])"
  by (subst fitLoop.simps) (simp add: Let_def)

lemma passes_step:
  fixes s :: real
  assumes "34 \<le> s"
  shows "1 + (if 34 \<le> s - 2 then nat \<lceil>(s - 2 - 34) / 2\<rceil> + 1 else 0) \<le> nat \<lceil>(s - 34) / 2\<rceil> + 1"
proof (cases "34 \<le> s - 2")
  case True
  define k where "k = \<lceil>(s - 34) / 2\<rceil>"
  have "(s - 2 - 34) / 2 = (s - 34) / 2 - 1" by (simp add: field_simps)
  then have c: "\<lceil>(s - 2 - 34) / 2\<rceil> = k - 1" by (simp only: ceiling_diff_one k_def)
  have "1 \<le> (s - 34) / 2" using True by simp
  then have k1: "1 \<le> k" unfolding k_def by (simp only: le_ceiling_iff)
  have "nat (k - 1) + 1 = nat k" using k1 by linarith
  then have "1 + (nat (k - 1) + 1) \<le> nat k + 1" by linarith
  then show ?thesis using True by (simp only: c k_def if_True)
next
  case False
  then show ?thesis by simp
qed

lemma fitLoop_passes:
  "length (snd (snd (fitLoop mt fs t mw s lines tried))) \<le>
   length tried + (if 34 \<le> s then nat \<lceil>(s - 34) / 2\<rceil> + 1 else 0)"
proof (induction mt fs t mw s lines tried rule: fitLoop.induct)
  case (1 mt fs t mw s lines tried)
  show ?case
  proof (cases "34 \<le> s")
    case False
    then show ?thesis by (simp add: fitLoop_stop)
  next
    case True
    define cand where "cand = wrapText (mt (fontOf fs s)) t mw"
    define longest where "longest = foldl (\<lambda>acc row. max acc (mt (fontOf fs s) row)) 0 cand"
    show ?thesis
    proof (cases "longest \<le> mw")
      case fit: True
      then show ?thesis
        using True fitLoop_fit [of s mt fs t mw lines tried] by (simp add: longest_def cand_def)
    next
      case nofit: False
      have ih: "length (snd (snd (fitLoop mt fs t mw (s - 2) cand (tried @ [s])))) \<le>
                length (tried @ [s]) + (if 34 \<le> s - 2 then nat \<lceil>(s - 2 - 34) / 2\<rceil> + 1 else 0)"
        using "1.IH" [OF True cand_def longest_def nofit] .
      have eq: "fitLoop mt fs t mw s lines tried = fitLoop mt fs t mw (s - 2) cand (tried @ [s])"
        using fitLoop_shrink [of s mt fs t mw lines tried] True nofit
        by (simp add: longest_def cand_def)
      show ?thesis using ih passes_step [OF True] True unfolding eq by simp
    qed
  qed
qed

lemma fitLoop_below_floor:
  "(\<forall>z. 34 \<le> z \<longrightarrow>
     \<not> foldl (\<lambda>acc row. max acc (mt (fontOf fs z) row)) 0 (wrapText (mt (fontOf fs z)) t mw) \<le> mw) \<Longrightarrow>
   fst (fitLoop mt fs t mw s lines tried) < 34"
proof (induction mt fs t mw s lines tried rule: fitLoop.induct)
  case (1 mt fs t mw s lines tried)
  show ?case
  proof (cases "34 \<le> s")
    case False
    then show ?thesis by (simp add: fitLoop_stop)
  next
    case True
    define cand where "cand = wrapText (mt (fontOf fs s)) t mw"
    define longest where "longest = foldl (\<lambda>acc row. max acc (mt (fontOf fs s) row)) 0 cand"
    have nofit: "\<not> longest \<le> mw" using "1.prems" True by (simp add: longest_def cand_def)
    have eq: "fitLoop mt fs t mw s lines tried = fitLoop mt fs t mw (s - 2) cand (tried @ [s])"
      using fitLoop_shrink [of s mt fs t mw lines tried] True nofit
      by (simp add: longest_def cand_def)
    show ?thesis
      unfolding eq using "1.IH" [OF True cand_def longest_def nofit "1.prems"] .
  qed
qed

lemma overflowComposer_fields:
  "fontStyle overflowComposer = initialFontStyle []" "preset overflowComposer = Adaptive"
  "imageUrl overflowComposer = []" "logoUrl overflowComposer = []"
  "textValue overflowComposer = overflowText"
  by (simp_all add: overflowComposer_def initialComposer_def)

text \<open>
  Claim C1 against the code. The loop ends within the bound (\<open>fitLoop_passes\<close>), but when
  no size fits it ends below 34 (\<open>fitLoop_below_floor\<close>): the size is lowered once more
  after the last pass. From the initial state (size 54, width 800) with the text
  \<open>"a WWWWWWWWWWWWWWWWWWWWWWWW"\<close> and glyphs as wide as the font size, the loop makes
  its 11 passes from 54 down to 34, none fits, and the text is drawn with the font set
  to 32 px, on the lines wrapped for 34 px.
\<close>

theorem draw_font_below_floor:
  "fitText testBrowser overflowComposer =
     (32, [[97], [87, 87, 87, 87, 87, 87, 87, 87, 87, 87, 87, 87, 87, 87, 87, 87, 87, 87, 87, 87,
      87, 87, 87, 87]], [54, 52, 50, 48, 46, 44, 42, 40, 38, 36, 34]) \<and>
   fontAtText None (draw testBrowser overflowComposer) =
     Some \<lparr>fWeight = 700, fSizePx = 32, fFamily = SARABUN_STACK []\<rparr>"
proof -
  have t: "trim overflowText \<noteq> []"
    by (simp add: trim_overflow) (simp add: overflowText_def)
  have "fontAtText None (textLayer testBrowser overflowComposer) =
     Some \<lparr>fWeight = 700, fSizePx = 32, fFamily = SARABUN_STACK []\<rparr>"
    using t
    by (simp add: textLayer_def fit_overflow overflowComposer_fields Let_def strokeLines_def
          fontOf_def initialFontStyle_def)
  then have "fontAtText None (draw testBrowser overflowComposer) =
     Some \<lparr>fWeight = 700, fSizePx = 32, fFamily = SARABUN_STACK []\<rparr>"
    by (simp add: draw_def testBrowser_def backgroundLayer_def backgroundImage_def
          drawFallbackBackground_def drawBottomPlate_def logoLayer_def
          overflowComposer_fields)
  then show ?thesis using fit_overflow by simp
qed

end
